theory Spec2Isabelle
  imports Main "HOL-Library.AList" "HOL-Library.Word"
begin

section \<open>Strings, bytes and exceptions\<close>

text \<open>
  A Python \<open>str\<close> is a sequence of code points. The text of a request, as the wire codec
  takes it apart, and the names of files and keys are modelled by \<open>string\<close>, a list of
  \<open>char\<close>, each \<open>char\<close> standing for the code point of the same number, 0 to 255; code
  points above 255 are outside that part of the model. Text that is encoded for the wire
  (the body and the content type of a response) and the text the router works on (the
  patterns of the routes and the paths matched against them) is a \<open>ustring\<close>, the list of
  its code points as natural numbers; a code point of a Python \<open>str\<close> is below
  \<open>0x110000\<close>. \<open>ustr\<close> reads a \<open>string\<close> as a \<open>ustring\<close>. A Python \<open>bytes\<close> value is a list of
  8-bit words.
\<close>

type_synonym bytes = "8 word list"

type_synonym ustring = "nat list"

definition ustr :: "string \<Rightarrow> ustring" where
  "ustr s = map of_char s"

text \<open>
  \<open>str.encode('utf-8')\<close>: one to four bytes for a code point, and \<open>UnicodeEncodeError\<close> for
  a string that holds a surrogate, a code point from \<open>0xD800\<close> to \<open>0xDFFF\<close>. \<open>exn\<close> holds
  the exceptions the modelled code can meet; failures of the hardware or of permissions
  (a full disk, a reset connection) are not modelled.
\<close>

datatype exn =
    FileNotFoundError
  | FileExistsError
  | IsADirectoryError
  | NotADirectoryError
  | JSONDecodeError
  | RegexError
  | KeyError
  | AttributeError
  | UnicodeEncodeError
  | HandlerError string

definition utf8_cp :: "nat \<Rightarrow> bytes" where
  "utf8_cp n =
     (if n < 0x80 then [of_nat n]
      else if n < 0x800 then [of_nat (0xC0 + n div 0x40), of_nat (0x80 + n mod 0x40)]
      else if n < 0x10000 then
        [of_nat (0xE0 + n div 0x1000), of_nat (0x80 + n div 0x40 mod 0x40),
         of_nat (0x80 + n mod 0x40)]
      else
        [of_nat (0xF0 + n div 0x40000), of_nat (0x80 + n div 0x1000 mod 0x40),
         of_nat (0x80 + n div 0x40 mod 0x40), of_nat (0x80 + n mod 0x40)])"

definition utf8_bytes :: "ustring \<Rightarrow> bytes" where
  "utf8_bytes s = concat (map utf8_cp s)"

definition surrogate :: "nat \<Rightarrow> bool" where
  "surrogate n = (0xD800 \<le> n \<and> n < 0xE000)"

definition encode_utf8 :: "ustring \<Rightarrow> exn + bytes" where
  "encode_utf8 s = (if list_ex surrogate s then Inl UnicodeEncodeError else Inr (utf8_bytes s))"

text \<open>
  The bytes of a text of ASCII characters, one byte for a character: its number. \<open>ascii\<close>
  says that a text holds ASCII characters only.
\<close>

definition ascii_bytes :: "string \<Rightarrow> bytes" where
  "ascii_bytes s = map (\<lambda>c. of_nat (of_char c)) s"

definition ascii :: "string \<Rightarrow> bool" where
  "ascii s = list_all (\<lambda>c. (of_char c :: nat) < 128) s"

definition CRLF :: string where
  "CRLF = [CHR 0x0D, CHR 0x0A]"

text \<open>
  \<open>str(n)\<close> for an integer, as an f-string formats it: decimal digits, a minus sign first.
  \<open>dec_value\<close> reads a text of decimal digits as a number.
\<close>

definition digit_char :: "nat \<Rightarrow> char" where
  "digit_char d = ''0123456789'' ! d"

function str_nat :: "nat \<Rightarrow> string" where
  "str_nat n = (if n < 10 then [digit_char n] else str_nat (n div 10) @ [digit_char (n mod 10)])"
  by pat_completeness auto
termination
  by (relation "measure id") auto

declare str_nat.simps [simp del]

definition str_int :: "int \<Rightarrow> string" where
  "str_int i = (if i < 0 then CHR ''-'' # str_nat (nat (- i)) else str_nat (nat i))"

definition dec_value :: "string \<Rightarrow> nat" where
  "dec_value s = foldl (\<lambda>a c. 10 * a + (of_char c - 48)) 0 s"

section \<open>Wire codec\<close>

text \<open>
  \<open>s.split(sep)\<close> for a separator that is not empty: the pieces between the occurrences of
  \<open>sep\<close>, found from the left and not overlapping. \<open>cur\<close> holds the piece being read.
\<close>

lemma drop_separator_shorter:
  "sep \<noteq> [] \<Longrightarrow> take (length sep) s = sep \<Longrightarrow> length s - length sep < length s"
  by (cases s; cases sep; simp)

function split_acc :: "string \<Rightarrow> string \<Rightarrow> string \<Rightarrow> string list" where
  "split_acc sep cur s =
     (if sep \<noteq> [] \<and> take (length sep) s = sep
      then cur # split_acc sep [] (drop (length sep) s)
      else (case s of [] \<Rightarrow> [cur] | c # cs \<Rightarrow> split_acc sep (cur @ [c]) cs))"
  by pat_completeness auto
termination
  by (relation "measure (\<lambda>(sep, cur, s). length s)") (auto intro: drop_separator_shorter)

declare split_acc.simps [simp del]

definition split :: "string \<Rightarrow> string \<Rightarrow> string list" where
  "split sep s = split_acc sep [] s"

text \<open>
  \<open>s.split(sep, 1)\<close> where \<open>sep in s\<close>: the text before the first occurrence of \<open>sep\<close> and
  the text after it; \<open>None\<close> where \<open>sep\<close> does not occur.
\<close>

fun find_sep :: "string \<Rightarrow> string \<Rightarrow> string \<Rightarrow> (string \<times> string) option" where
  "find_sep sep cur [] = (if sep = [] then Some (cur, []) else None)"
| "find_sep sep cur (c # cs) =
     (if take (length sep) (c # cs) = sep then Some (cur, drop (length sep) (c # cs))
      else find_sep sep (cur @ [c]) cs)"

definition split_once :: "string \<Rightarrow> string \<Rightarrow> (string \<times> string) option" where
  "split_once sep s = find_sep sep [] s"

fun join :: "string \<Rightarrow> string list \<Rightarrow> string" where
  "join sep [] = []"
| "join sep [x] = x"
| "join sep (x # y # ys) = x @ sep @ join sep (y # ys)"

text \<open>
  A Python \<open>dict\<close> with string keys is an association list in insertion order:
  \<open>d[k] = v\<close> is \<open>AList.update k v d\<close> (the value is replaced in place, a new key goes to
  the end), \<open>d.get(k)\<close> is \<open>map_of d k\<close>.
\<close>

type_synonym 'v dict = "(string \<times> 'v) list"

text \<open>
  The body of the \<open>while\<close> loop of \<open>__parse_request\<close> (lines 89 to 91) on one line, and
  the loop (lines 88 to 92) over \<open>lines[i:]\<close>: it returns the headers and the lines it did
  not consume, the first of which is the blank line.
\<close>

definition header_step :: "string \<Rightarrow> string dict \<Rightarrow> string dict" where
  "header_step l headers =
     (case split_once '': '' l of
        Some (key, val) \<Rightarrow> AList.update key val headers
      | None \<Rightarrow> headers)"

fun header_loop :: "string list \<Rightarrow> string dict \<Rightarrow> string dict \<times> string list" where
  "header_loop [] headers = (headers, [])"
| "header_loop (l # ls) headers =
     (if l = [] then (headers, l # ls) else header_loop ls (header_step l headers))"

definition parse_request :: "string \<Rightarrow> string \<times> string dict \<times> string" where
  "parse_request request_text =
     (let lines = split CRLF request_text;
          request_line = (case lines of [] \<Rightarrow> [] | l # ls \<Rightarrow> l);
          (headers, rest) = header_loop (drop 1 lines) [];
          body = join CRLF (drop 1 rest)
      in (request_line, headers, body))"

section \<open>File system\<close>

text \<open>
  The files and directories the store works on. A location is the list of the names from
  the root down; a file system maps a location to a directory or to a file with its
  content, and the root, the location \<open>[]\<close>, is a directory. The working directory of the
  process is taken to be the root, so a relative path and the absolute path of the same
  names denote the same location. Symbolic links, permissions and failures of the device
  are not modelled.
\<close>

datatype 'c node = Dir | File 'c

type_synonym loc = "string list"

type_synonym 'c fs = "loc \<Rightarrow> 'c node option"

definition is_dir :: "'c fs \<Rightarrow> loc \<Rightarrow> bool" where
  "is_dir fs l = (l = [] \<or> fs l = Some Dir)"

text \<open>
  Path resolution as the kernel does it: \<open>walk\<close> goes through the components of a path
  from the location \<open>cur\<close>. Every component, also an empty one, \<open>.\<close> and \<open>..\<close>, is looked up
  in \<open>cur\<close>, which must be a directory. The location reached need not exist.
\<close>

fun walk :: "'c fs \<Rightarrow> loc \<Rightarrow> string list \<Rightarrow> exn + loc" where
  "walk fs cur [] = Inr cur"
| "walk fs cur (c # cs) =
     (if \<not> is_dir fs cur
      then Inl (if fs cur = None then FileNotFoundError else NotADirectoryError)
      else if c = [] \<or> c = ''.'' then walk fs cur cs
      else if c = ''..'' then walk fs (butlast cur) cs
      else walk fs (cur @ [c]) cs)"

definition resolve :: "'c fs \<Rightarrow> string \<Rightarrow> exn + loc" where
  "resolve fs p = (if p = [] then Inl FileNotFoundError else walk fs [] (split ''/'' p))"

text \<open>
  \<open>os.path.exists\<close>; \<open>open(p, "w")\<close> with the \<open>write\<close> of the whole content and the close;
  \<open>open(p, "r")\<close> with the \<open>read\<close> of the whole content; \<open>os.remove\<close>.
\<close>

definition path_exists :: "'c fs \<Rightarrow> string \<Rightarrow> bool" where
  "path_exists fs p = (case resolve fs p of Inl e \<Rightarrow> False | Inr l \<Rightarrow> l = [] \<or> fs l \<noteq> None)"

definition open_write :: "'c fs \<Rightarrow> string \<Rightarrow> 'c \<Rightarrow> exn + 'c fs" where
  "open_write fs p c =
     (case resolve fs p of
        Inl e \<Rightarrow> Inl e
      | Inr l \<Rightarrow> if is_dir fs l then Inl IsADirectoryError else Inr (fs(l \<mapsto> File c)))"

definition open_read :: "'c fs \<Rightarrow> string \<Rightarrow> exn + 'c" where
  "open_read fs p =
     (case resolve fs p of
        Inl e \<Rightarrow> Inl e
      | Inr l \<Rightarrow>
          if is_dir fs l then Inl IsADirectoryError
          else (case fs l of
                  Some (File c) \<Rightarrow> Inr c
                | other \<Rightarrow> Inl FileNotFoundError))"

definition remove :: "'c fs \<Rightarrow> string \<Rightarrow> exn + 'c fs" where
  "remove fs p =
     (case resolve fs p of
        Inl e \<Rightarrow> Inl e
      | Inr l \<Rightarrow>
          if is_dir fs l then Inl IsADirectoryError
          else (case fs l of
                  Some (File c) \<Rightarrow> Inr (fs(l := None))
                | other \<Rightarrow> Inl FileNotFoundError))"

text \<open>
  \<open>os.makedirs(p, exist_ok=True)\<close>: every directory on the way that is missing is created;
  a file on the way, or in the place of the last directory, is an error.
\<close>

fun mkdirs :: "'c fs \<Rightarrow> loc \<Rightarrow> string list \<Rightarrow> exn + 'c fs" where
  "mkdirs fs cur [] = Inr fs"
| "mkdirs fs cur (c # cs) =
     (if c = [] \<or> c = ''.'' then mkdirs fs cur cs
      else if c = ''..'' then mkdirs fs (butlast cur) cs
      else (case fs (cur @ [c]) of
              None \<Rightarrow> mkdirs (fs(cur @ [c] \<mapsto> Dir)) (cur @ [c]) cs
            | Some Dir \<Rightarrow> mkdirs fs (cur @ [c]) cs
            | Some (File x) \<Rightarrow> Inl (if cs = [] then FileExistsError else NotADirectoryError)))"

definition makedirs :: "'c fs \<Rightarrow> string \<Rightarrow> exn + 'c fs" where
  "makedirs fs p = (if p = [] then Inl FileNotFoundError else mkdirs fs [] (split ''/'' p))"

text \<open>
  A name of one file in a directory: it holds no \<open>/\<close> and is none of the empty name, \<open>.\<close>
  and \<open>..\<close>.
\<close>

definition name_ok :: "string \<Rightarrow> bool" where
  "name_ok c = (CHR ''/'' \<notin> set c \<and> c \<noteq> [] \<and> c \<noteq> ''.'' \<and> c \<noteq> ''..'')"

text \<open>\<open>os.path.join\<close> of two paths; with three paths it is applied twice, from the left.\<close>

definition path_join :: "string \<Rightarrow> string \<Rightarrow> string" where
  "path_join a b =
     (if take 1 b = ''/'' then b
      else if a = [] \<or> last a = CHR ''/'' then a @ b
      else a @ ''/'' @ b)"

section \<open>Response\<close>

text \<open>
  The \<open>writer\<close> of a \<open>Response\<close> is an asyncio stream writer. It is modelled by the trace
  of the calls made on it, oldest first; the methods append to the trace.
\<close>

datatype event = Write bytes | Drain | Close

type_synonym writer = "event list"

definition wwrite :: "writer \<Rightarrow> bytes \<Rightarrow> writer" where
  "wwrite w b = w @ [Write b]"

definition wdrain :: "writer \<Rightarrow> writer" where
  "wdrain w = w @ [Drain]"

definition wclose :: "writer \<Rightarrow> writer" where
  "wclose w = w @ [Close]"

text \<open>
  What a trace handed to \<open>write\<close>, and how often it closed the connection.
  \<open>StreamWriter.close\<close> closes the transport, and a transport that is closing returns from
  a further \<open>close\<close> at once: the connection is closed by a \<open>close\<close> that finds it open, and
  \<open>closes_while c w\<close> counts those in \<open>w\<close>, where \<open>c\<close> says that the connection is closed
  already.
\<close>

fun written :: "writer \<Rightarrow> bytes" where
  "written [] = []"
| "written (Write b # w) = b @ written w"
| "written (e # w) = written w"



text \<open>
  \<open>Response.send\<close> (lines 21 to 26); the defaults of the source are passed explicitly.
  The body is encoded on line 23 for its length and the whole response on line 24; where
  either raises, nothing has been written and the writer is not closed. The result is the
  trace and the exception that leaves the method, if any.
\<close>

definition send :: "writer \<Rightarrow> ustring \<Rightarrow> int \<Rightarrow> ustring \<Rightarrow> writer \<times> exn option" where
  "send w body status_code content_type =
     (let response_line = ustr (''HTTP/1.1 '' @ str_int status_code @ '' OK'' @ CRLF)
      in case encode_utf8 body of
           Inl e \<Rightarrow> (w, Some e)
         | Inr encoded_body \<Rightarrow>
             (let headers = ustr ''Content-Type: '' @ content_type @ ustr CRLF @
                            ustr (''Content-Length: '' @ str_nat (length encoded_body) @ CRLF @ CRLF)
              in case encode_utf8 (response_line @ headers @ body) of
                   Inl e \<Rightarrow> (w, Some e)
                 | Inr response \<Rightarrow>
                     (let w1 = wwrite w response;
                          w2 = wdrain w1
                      in (wclose w2, None))))"


section \<open>Requests, routes and the connection handler\<close>

text \<open>
  JSON values. Floating-point numbers are not modelled. An object keeps its members in
  order, as a Python \<open>dict\<close> does.
\<close>

datatype json =
    JNull
  | JBool bool
  | JInt int
  | JStr string
  | JArr "json list"
  | JObj "(string \<times> json) list"

text \<open>
  \<open>Request\<close> (lines 7 to 14). The class declares the slots \<open>method\<close>, \<open>path\<close>, \<open>headers\<close> and
  \<open>body\<close>, so an object has these four attributes and no other; the field \<open>method\<close> is
  \<open>method'\<close> here.
\<close>

record request =
  method' :: string
  path :: string
  headers :: "string dict"
  body :: string

text \<open>
  \<open>Request.__init__\<close> (lines 9 to 14). \<open>loads\<close> is \<open>json.loads\<close>: the value a text denotes,
  \<open>None\<close> where the library raises \<open>JSONDecodeError\<close>. Line 14 works out the value for
  \<open>bodyJson\<close> and then assigns it to an attribute that is not among the slots, which raises
  \<open>AttributeError\<close>: no call of the constructor returns a request.
\<close>

definition new_request ::
  "(string \<Rightarrow> json option) \<Rightarrow> string \<Rightarrow> string \<Rightarrow> string dict \<Rightarrow> string \<Rightarrow> exn + request" where
  "new_request loads m p h b =
     (case (if b = [] then Some (JObj []) else loads b) of
        None \<Rightarrow> Inl JSONDecodeError
      | Some body_json \<Rightarrow> Inl AttributeError)"

text \<open>
  The part of Python's regular expressions that is modelled: a pattern is a sequence of
  atoms over code points. \<open>Group n\<close> is the named group \<open>(?P<n>[^/]+)\<close>. Single
  characters are written as their code points: \<open>0x0A\<close> is the newline, \<open>0x24\<close> is \<open>$\<close>,
  \<open>0x2E\<close> is the dot, \<open>0x2F\<close> is \<open>/\<close>, \<open>0x3E\<close> is \<open>>\<close>, \<open>0x5B\<close> is \<open>[\<close> and \<open>0x5E\<close> is \<open>^\<close>.
\<close>

datatype atom = Lit nat | AnyChar | Bol | Eol | Group ustring

type_synonym regex = "atom list"

type_synonym groupdict = "(ustring \<times> ustring) list"

text \<open>
  \<open>regex.match(s)\<close> followed by \<open>groupdict()\<close>: the match starts at the first character of
  \<open>s\<close> and need not reach its end. \<open>bos\<close> says that no character has been consumed.
  \<open>^\<close> matches at the start of the string only; \<open>$\<close> matches at its end and before a
  newline that ends it; \<open>.\<close> matches every character but the newline; a group is greedy:
  it takes the longest run of characters other than \<open>/\<close> with which the rest of the pattern
  matches, and at least one.
\<close>

fun re_match_from :: "bool \<Rightarrow> regex \<Rightarrow> ustring \<Rightarrow> groupdict option" where
  "re_match_from bos [] s = Some []"
| "re_match_from bos (Lit c # r) s =
     (case s of [] \<Rightarrow> None | x # xs \<Rightarrow> if x = c then re_match_from False r xs else None)"
| "re_match_from bos (AnyChar # r) s =
     (case s of [] \<Rightarrow> None | x # xs \<Rightarrow> if x \<noteq> 0x0A then re_match_from False r xs else None)"
| "re_match_from bos (Bol # r) s = (if bos then re_match_from bos r s else None)"
| "re_match_from bos (Eol # r) s =
     (if s = [] \<or> s = [0x0A] then re_match_from bos r s else None)"
| "re_match_from bos (Group n # r) s =
     (case filter (\<lambda>k. re_match_from False r (drop k s) \<noteq> None)
             (rev [1 ..< Suc (length (takeWhile (\<lambda>c. c \<noteq> 0x2F) s))]) of
        [] \<Rightarrow> None
      | k # ks \<Rightarrow> map_option (\<lambda>d. (n, take k s) # d) (re_match_from False r (drop k s)))"

definition re_match :: "regex \<Rightarrow> ustring \<Rightarrow> groupdict option" where
  "re_match r s = re_match_from True r s"

text \<open>
  The classes of characters the library reads from the Unicode character database: the
  word characters \<open>\w\<close> of \<open>re\<close> (alphanumeric, or the underscore) and the characters that
  start and continue an identifier (\<open>str.isidentifier\<close>). They are written out for the code
  points 0 to 255; above, the database is a parameter, \<open>tab\<close>.
\<close>

record chartab =
  word_above :: "nat \<Rightarrow> bool"
  id_start_above :: "nat \<Rightarrow> bool"
  id_continue_above :: "nat \<Rightarrow> bool"

definition is_word :: "chartab \<Rightarrow> nat \<Rightarrow> bool" where
  "is_word tab n =
     (if n < 0x100
      then (0x30 \<le> n \<and> n \<le> 0x39) \<or> (0x41 \<le> n \<and> n \<le> 0x5A) \<or> n = 0x5F \<or>
           (0x61 \<le> n \<and> n \<le> 0x7A) \<or> n = 0xAA \<or> n = 0xB2 \<or> n = 0xB3 \<or> n = 0xB5 \<or>
           n = 0xB9 \<or> n = 0xBA \<or> (0xBC \<le> n \<and> n \<le> 0xBE) \<or> (0xC0 \<le> n \<and> n \<le> 0xD6) \<or>
           (0xD8 \<le> n \<and> n \<le> 0xF6) \<or> 0xF8 \<le> n
      else word_above tab n)"

definition id_start :: "chartab \<Rightarrow> nat \<Rightarrow> bool" where
  "id_start tab n =
     (if n < 0x100
      then (0x41 \<le> n \<and> n \<le> 0x5A) \<or> n = 0x5F \<or> (0x61 \<le> n \<and> n \<le> 0x7A) \<or> n = 0xAA \<or>
           n = 0xB5 \<or> n = 0xBA \<or> (0xC0 \<le> n \<and> n \<le> 0xD6) \<or> (0xD8 \<le> n \<and> n \<le> 0xF6) \<or>
           0xF8 \<le> n
      else id_start_above tab n)"

definition id_continue :: "chartab \<Rightarrow> nat \<Rightarrow> bool" where
  "id_continue tab n =
     (if n < 0x100
      then id_start tab n \<or> (0x30 \<le> n \<and> n \<le> 0x39) \<or> n = 0xB7
      else id_continue_above tab n)"

definition is_identifier :: "chartab \<Rightarrow> ustring \<Rightarrow> bool" where
  "is_identifier tab name =
     (name \<noteq> [] \<and> id_start tab (hd name) \<and> list_all (id_continue tab) (tl name))"

text \<open>
  The examples below hold code points under 256 only, for which the database is not
  consulted; \<open>latin1\<close> is a table with nothing in any class above.
\<close>

definition latin1 :: chartab where
  "latin1 = \<lparr>word_above = (\<lambda>n. False), id_start_above = (\<lambda>n. False),
             id_continue_above = (\<lambda>n. False)\<rparr>"

text \<open>
  \<open>re.sub(r"\[(\w+)\]", r"(?P<\1>[^/]+)", path)\<close> (line 53). \<open>match_bracket\<close> tries
  \<open>\[(\w+)\]\<close> at the start of a string and gives the name and the text after the closing
  bracket; \<open>\w+\<close> takes the longest run of word characters, and a shorter run cannot be
  followed by \<open>]\<close>. \<open>sub_brackets\<close> replaces the matches from the left.
\<close>

definition match_bracket :: "chartab \<Rightarrow> ustring \<Rightarrow> (ustring \<times> ustring) option" where
  "match_bracket tab s =
     (case s of
        [] \<Rightarrow> None
      | c # t \<Rightarrow>
          if c = 0x5B \<and> takeWhile (is_word tab) t \<noteq> [] \<and>
             take 1 (dropWhile (is_word tab) t) = ustr '']''
          then Some (takeWhile (is_word tab) t, drop 1 (dropWhile (is_word tab) t))
          else None)"

lemma dropWhile_minus_le: "length (dropWhile P cs) - m \<le> length cs"
proof -
  have "length (dropWhile P cs) \<le> length cs"
    by (rule length_dropWhile_le)
  then show ?thesis by simp
qed

lemma match_bracket_shorter:
  "match_bracket tab s = Some (name, rest) \<Longrightarrow> length rest < length s"
  by (auto simp: match_bracket_def less_Suc_eq_le dropWhile_minus_le
      split: list.splits if_splits)

function sub_brackets :: "chartab \<Rightarrow> ustring \<Rightarrow> ustring" where
  "sub_brackets tab [] = []"
| "sub_brackets tab (c # cs) =
     (case match_bracket tab (c # cs) of
        Some (name, rest) \<Rightarrow> ustr ''(?P<'' @ name @ ustr ''>[^/]+)'' @ sub_brackets tab rest
      | None \<Rightarrow> c # sub_brackets tab cs)"
  by pat_completeness auto
termination
  by (relation "measure (\<lambda>(tab, s). length s)") (auto dest: match_bracket_shorter)

text \<open>
  \<open>re.compile\<close> (line 55) on the modelled part of the syntax. The result is \<open>None\<close> where
  the pattern is outside that part: it uses a metacharacter other than \<open>.\<close>, \<open>^\<close>, \<open>$\<close> and the
  group \<open>(?P<name>[^/]+)\<close>. Inside it, the result is the compiled pattern or the \<open>re.error\<close>
  the library raises: for a group name that is not an identifier, that is not closed, or
  that names a second group. \<open>seen\<close> holds the names of the groups read so far.
\<close>

definition special :: "nat \<Rightarrow> bool" where
  "special c = (c \<in> set (ustr (''.^$*+?{}[]|()'' @ [CHR 0x5C])))"

fun cons_atom :: "atom \<Rightarrow> (exn + regex) option \<Rightarrow> (exn + regex) option" where
  "cons_atom a None = None"
| "cons_atom a (Some (Inl e)) = Some (Inl e)"
| "cons_atom a (Some (Inr r)) = Some (Inr (a # r))"

lemma drop_after_name_shorter:
  "length (dropWhile P (drop n cs)) - m < Suc (length cs)"
proof -
  have "length (dropWhile P (drop n cs)) \<le> length (drop n cs)"
    by (rule length_dropWhile_le)
  then show ?thesis by simp
qed

function re_parse :: "chartab \<Rightarrow> ustring list \<Rightarrow> ustring \<Rightarrow> (exn + regex) option" where
  "re_parse tab seen [] = Some (Inr [])"
| "re_parse tab seen (c # cs) =
     (if take 4 (c # cs) = ustr ''(?P<'' then
        (let name = takeWhile (\<lambda>x. x \<noteq> 0x3E) (drop 4 (c # cs));
             rest = dropWhile (\<lambda>x. x \<noteq> 0x3E) (drop 4 (c # cs))
         in if rest = [] \<or> \<not> is_identifier tab name \<or> name \<in> set seen then Some (Inl RegexError)
            else if take 7 rest = ustr ''>[^/]+)''
            then cons_atom (Group name) (re_parse tab (name # seen) (drop 7 rest))
            else None)
      else if c = 0x2E then cons_atom AnyChar (re_parse tab seen cs)
      else if c = 0x5E then cons_atom Bol (re_parse tab seen cs)
      else if c = 0x24 then cons_atom Eol (re_parse tab seen cs)
      else if special c then None
      else cons_atom (Lit c) (re_parse tab seen cs))"
  by pat_completeness auto
termination
  by (relation "measure (\<lambda>(tab, seen, s). length s)") (auto simp: drop_after_name_shorter)

definition re_compile :: "chartab \<Rightarrow> ustring \<Rightarrow> (exn + regex) option" where
  "re_compile tab pattern = re_parse tab [] pattern"

text \<open>The three lines 53 to 55 of the decorator of \<open>Server.on\<close>.\<close>

definition compile_path :: "chartab \<Rightarrow> ustring \<Rightarrow> (exn + regex) option" where
  "compile_path tab p = re_compile tab (ustr ''^'' @ sub_brackets tab p @ ustr ''$'')"

text \<open>
  The characters that a pattern can hold outside its groups and that stand for themselves
  in the path: those that are no metacharacters, and the dot, which matches itself among
  others. \<open>atom_of\<close> is the atom \<open>re.compile\<close> reads such a character as.
\<close>

definition plain :: "nat \<Rightarrow> bool" where
  "plain c = (c = 0x2E \<or> \<not> special c)"

definition atom_of :: "nat \<Rightarrow> atom" where
  "atom_of c = (if c = 0x2E then AnyChar else Lit c)"

text \<open>
  A path pattern together with a value for each of its bracketed segments, piece by piece:
  \<open>Text t\<close> is literal text, \<open>Param n v\<close> the segment \<open>[n]\<close> with the value \<open>v\<close>. \<open>pattern_of\<close> is
  the pattern as it is given to \<open>Server.on\<close>, \<open>path_of\<close> the path with the values in the place
  of the segments, \<open>bindings\<close> the parameter mapping from the names to the values, \<open>atoms\<close>
  the atoms of the pattern, \<open>names\<close> the names of the segments.
\<close>

datatype piece = Text ustring | Param ustring ustring

fun pattern_of :: "piece list \<Rightarrow> ustring" where
  "pattern_of [] = []"
| "pattern_of (Text t # ps) = t @ pattern_of ps"
| "pattern_of (Param n v # ps) = ustr ''['' @ n @ ustr '']'' @ pattern_of ps"

fun path_of :: "piece list \<Rightarrow> ustring" where
  "path_of [] = []"
| "path_of (Text t # ps) = t @ path_of ps"
| "path_of (Param n v # ps) = v @ path_of ps"

fun bindings :: "piece list \<Rightarrow> groupdict" where
  "bindings [] = []"
| "bindings (Text t # ps) = bindings ps"
| "bindings (Param n v # ps) = (n, v) # bindings ps"

fun atoms :: "piece list \<Rightarrow> regex" where
  "atoms [] = []"
| "atoms (Text t # ps) = map atom_of t @ atoms ps"
| "atoms (Param n v # ps) = Group n # atoms ps"

definition names :: "piece list \<Rightarrow> ustring list" where
  "names ps = map fst (bindings ps)"

text \<open>
  The source of the regular expression that line 53 makes of a pattern: every segment
  \<open>[n]\<close> rewritten to the group \<open>(?P<n>[^/]+)\<close>.
\<close>

definition regex_source :: "piece list \<Rightarrow> ustring" where
  "regex_source ps =
     concat (map (\<lambda>p. case p of Text t \<Rightarrow> t | Param n v \<Rightarrow> ustr ''(?P<'' @ n @ ustr ''>[^/]+)'') ps)"

text \<open>
  The patterns and values the router is proved right for. The text is plain. A name is
  one or more word characters that make an identifier, and no two segments share a name.
  A value is not empty and holds no \<open>/\<close>. After a segment the pattern ends, or goes on with
  \<open>/\<close>, or holds no further segment.
\<close>

definition param_name :: "chartab \<Rightarrow> ustring \<Rightarrow> bool" where
  "param_name tab n = (list_all (is_word tab) n \<and> is_identifier tab n)"

definition segment_value :: "ustring \<Rightarrow> bool" where
  "segment_value v = (v \<noteq> [] \<and> 0x2F \<notin> set v)"

fun pieces_ok :: "chartab \<Rightarrow> piece list \<Rightarrow> bool" where
  "pieces_ok tab [] = True"
| "pieces_ok tab (Text t # ps) = (list_all plain t \<and> pieces_ok tab ps)"
| "pieces_ok tab (Param n v # ps) =
     (param_name tab n \<and> segment_value v \<and>
      (take 1 (pattern_of ps) = ustr ''/'' \<or> bindings ps = []) \<and> pieces_ok tab ps)"

definition well_formed :: "chartab \<Rightarrow> piece list \<Rightarrow> bool" where
  "well_formed tab ps = (pieces_ok tab ps \<and> distinct (names ps))"

text \<open>
  A handler is application code: from the request, the writer of the response and the
  path parameters it gives the trace it leaves and the exception it raises, if any.
\<close>

type_synonym handler = "request \<Rightarrow> writer \<Rightarrow> groupdict \<Rightarrow> writer \<times> exn option"

type_synonym route = "string \<times> regex \<times> handler"

text \<open>The loop over the routes and the 404 after it (lines 74 to 81).\<close>

fun dispatch :: "route list \<Rightarrow> request \<Rightarrow> writer \<Rightarrow> writer \<times> exn option" where
  "dispatch [] req w = send w (ustr ''404 Not Found'') 404 (ustr ''text/plain'')"
| "dispatch ((m, regex, handler) # routes) req w =
     (if m = method' req
      then (case re_match regex (ustr (path req)) of
              Some params \<Rightarrow> handler req w params
            | None \<Rightarrow> dispatch routes req w)
      else dispatch routes req w)"

text \<open>
  \<open>Server.__handle_client\<close> (lines 60 to 81). \<open>data\<close> is what the one \<open>read\<close> returned,
  \<open>decode\<close> is \<open>bytes.decode('utf-8', 'ignore')\<close>. The exception of the constructor on
  line 71 leaves the handler, with the writer as it was.
\<close>

definition handle_client ::
  "(bytes \<Rightarrow> string) \<Rightarrow> (string \<Rightarrow> json option) \<Rightarrow> route list \<Rightarrow> bytes \<Rightarrow> writer
     \<Rightarrow> writer \<times> exn option" where
  "handle_client decode loads routes data w =
     (if data = [] then (wclose w, None)
      else
        (let (request_line, hdrs, bdy) = parse_request (decode data);
             parts = split '' '' request_line
         in if length parts < 3 then (wclose w, None)
            else (case new_request loads (parts ! 0) (parts ! 1) hdrs bdy of
                    Inl e \<Rightarrow> (w, Some e)
                  | Inr req \<Rightarrow> dispatch routes req w)))"

text \<open>
  \<open>Server.on\<close> (lines 51 to 58), applied to the function it decorates: the route goes to
  the end of the list. The result is \<open>None\<close> where the pattern is outside the modelled
  part of the regular expressions, and the \<open>re.error\<close> where \<open>re.compile\<close> raises one; the
  server is then unchanged.
\<close>

record server =
  port :: int
  routes :: "route list"

definition on :: "chartab \<Rightarrow> server \<Rightarrow> ustring \<Rightarrow> string \<Rightarrow> handler \<Rightarrow> (exn + server) option" where
  "on tab srv p m func =
     (case compile_path tab p of
        None \<Rightarrow> None
      | Some (Inl e) \<Rightarrow> Some (Inl e)
      | Some (Inr regex) \<Rightarrow> Some (Inr (srv\<lparr>routes := routes srv @ [(m, regex, func)]\<rparr>)))"

section \<open>Database\<close>

text \<open>
  What a file holds: \<open>JsonText v\<close> is a file with the JSON text of the value \<open>v\<close>, as
  \<open>json.dump(v, f)\<close> writes it and \<open>json.load(f)\<close> reads it back; the model identifies a JSON
  text with the value it denotes. \<open>OtherText\<close> is a file that holds no JSON text, on which
  \<open>json.load\<close> raises.

  The state of a \<open>Database\<close> object is its two fields; the lock is not modelled, as the
  model runs one operation at a time. The operations take the state and the file system
  and give them back; an exception gives \<open>Inl\<close> and the state it leaves behind is dropped.
  The Python \<open>None\<close> that \<open>get\<close> returns is \<open>JNull\<close>, the value \<open>json.load\<close> reads from the
  text \<open>null\<close>. \<open>set\<close>, \<open>get\<close> and \<open>delete\<close> are \<open>db_set\<close>, \<open>db_get\<close> and \<open>db_delete\<close> here.
\<close>

datatype content = JsonText json | OtherText string

record database =
  base_path :: string
  tables :: "(string dict) dict"

text \<open>\<open>__save_index\<close> (lines 126 to 129) and the JSON object it writes for an index.\<close>

definition index_json :: "string dict \<Rightarrow> json" where
  "index_json idx = JObj (map (\<lambda>(k, p). (k, JStr p)) idx)"

definition index_file :: "database \<Rightarrow> string \<Rightarrow> string" where
  "index_file db table = path_join (path_join (base_path db) table) ''index.json''"

definition save_index :: "database \<Rightarrow> content fs \<Rightarrow> string \<Rightarrow> exn + content fs" where
  "save_index db fs table =
     (case map_of (tables db) table of
        None \<Rightarrow> Inl KeyError
      | Some idx \<Rightarrow> open_write fs (index_file db table) (JsonText (index_json idx)))"

text \<open>
  \<open>Database.set\<close> (lines 131 to 142). \<open>value_file\<close> is the \<open>file_path\<close> it computes for a
  key.
\<close>

definition value_file :: "database \<Rightarrow> string \<Rightarrow> string \<Rightarrow> string" where
  "value_file db table key =
     path_join (path_join (path_join (base_path db) table) ''keys'') (key @ ''.json'')"

definition db_set ::
  "database \<Rightarrow> content fs \<Rightarrow> string \<Rightarrow> string \<Rightarrow> json \<Rightarrow> exn + database \<times> content fs" where
  "db_set db fs table key val =
     (let table_path = path_join (base_path db) table;
          keys_path = path_join table_path ''keys''
      in case makedirs fs keys_path of
           Inl e \<Rightarrow> Inl e
         | Inr fs1 \<Rightarrow>
             (let file_path = path_join keys_path (key @ ''.json'')
              in case open_write fs1 file_path (JsonText val) of
                   Inl e \<Rightarrow> Inl e
                 | Inr fs2 \<Rightarrow>
                     (let idx = (case map_of (tables db) table of None \<Rightarrow> [] | Some i \<Rightarrow> i);
                          db' = db\<lparr>tables :=
                                  AList.update table (AList.update key file_path idx) (tables db)\<rparr>
                      in case save_index db' fs2 table of
                           Inl e \<Rightarrow> Inl e
                         | Inr fs3 \<Rightarrow> Inr (db', fs3))))"

text \<open>\<open>Database.get\<close> (lines 144 to 152).\<close>

definition db_get :: "database \<Rightarrow> content fs \<Rightarrow> string \<Rightarrow> string \<Rightarrow> exn + json" where
  "db_get db fs table key =
     (case map_of (tables db) table of
        None \<Rightarrow> Inr JNull
      | Some idx \<Rightarrow>
          (case map_of idx key of
             None \<Rightarrow> Inr JNull
           | Some file_path \<Rightarrow>
               if file_path = [] \<or> \<not> path_exists fs file_path then Inr JNull
               else (case open_read fs file_path of
                       Inl e \<Rightarrow> Inl e
                     | Inr (JsonText v) \<Rightarrow> Inr v
                     | Inr (OtherText t) \<Rightarrow> Inl JSONDecodeError)))"

text \<open>
  \<open>Database.delete\<close> (lines 154 to 160): \<open>pop(key, None)\<close> takes the key out of the index
  in memory, and only where it gave a path and the file exists is the file removed and the
  index saved.
\<close>

definition db_delete ::
  "database \<Rightarrow> content fs \<Rightarrow> string \<Rightarrow> string \<Rightarrow> exn + database \<times> content fs" where
  "db_delete db fs table key =
     (case map_of (tables db) table of
        None \<Rightarrow> Inr (db, fs)
      | Some idx \<Rightarrow>
          (let file_path = map_of idx key;
               db' = db\<lparr>tables := AList.update table (AList.delete key idx) (tables db)\<rparr>
           in case file_path of
                None \<Rightarrow> Inr (db', fs)
              | Some fp \<Rightarrow>
                  if fp \<noteq> [] \<and> path_exists fs fp
                  then (case remove fs fp of
                          Inl e \<Rightarrow> Inl e
                        | Inr fs1 \<Rightarrow>
                            (case save_index db' fs1 table of
                               Inl e \<Rightarrow> Inl e
                             | Inr fs2 \<Rightarrow> Inr (db', fs2)))
                  else Inr (db', fs)))"

text \<open>\<open>Database.all_keys\<close> (lines 162 to 165).\<close>

definition all_keys :: "database \<Rightarrow> string \<Rightarrow> string list" where
  "all_keys db table = (case map_of (tables db) table of None \<Rightarrow> [] | Some idx \<Rightarrow> map fst idx)"

text \<open>
  The properties of a state the claims speak of. \<open>indexed\<close>: the key has an entry in the
  index of the table in memory. \<open>entry_file_exists\<close>: it has one, and the entry names a file
  that exists. \<open>index_on_disk\<close>: the \<open>index.json\<close> of the table holds exactly the index of
  the table in memory. \<open>then_do\<close> runs an operation on the result of another and hands an
  exception on.
\<close>

definition indexed :: "database \<Rightarrow> string \<Rightarrow> string \<Rightarrow> bool" where
  "indexed db table key =
     (case map_of (tables db) table of None \<Rightarrow> False | Some idx \<Rightarrow> map_of idx key \<noteq> None)"

definition entry_file_exists :: "database \<Rightarrow> content fs \<Rightarrow> string \<Rightarrow> string \<Rightarrow> bool" where
  "entry_file_exists db fs table key =
     (case map_of (tables db) table of
        None \<Rightarrow> False
      | Some idx \<Rightarrow>
          (case map_of idx key of None \<Rightarrow> False | Some fp \<Rightarrow> fp \<noteq> [] \<and> path_exists fs fp))"

definition index_on_disk :: "database \<Rightarrow> content fs \<Rightarrow> string \<Rightarrow> bool" where
  "index_on_disk db fs table =
     (case map_of (tables db) table of
        None \<Rightarrow> False
      | Some idx \<Rightarrow> open_read fs (index_file db table) = Inr (JsonText (index_json idx)))"

definition then_do :: "exn + 'a \<Rightarrow> ('a \<Rightarrow> exn + 'b) \<Rightarrow> exn + 'b" where
  "then_do x f = (case x of Inl e \<Rightarrow> Inl e | Inr v \<Rightarrow> f v)"

definition succeeds :: "exn + 'a \<Rightarrow> bool" where
  "succeeds x = (case x of Inl e \<Rightarrow> False | Inr v \<Rightarrow> True)"

text \<open>
  \<open>set\<close> followed by \<open>get\<close>, and \<open>set\<close> followed by \<open>delete\<close>, of the same key. A store that
  has just been made on an empty directory, and a store with a dangling entry: the index
  in memory and the index on disk both list the key \<open>k\<close>, and the file of its value is
  missing.
\<close>

definition set_get :: "database \<Rightarrow> content fs \<Rightarrow> string \<Rightarrow> string \<Rightarrow> json \<Rightarrow> exn + json" where
  "set_get db fs t k v = then_do (db_set db fs t k v) (\<lambda>(db1, fs1). db_get db1 fs1 t k)"

definition set_delete ::
  "database \<Rightarrow> content fs \<Rightarrow> string \<Rightarrow> string \<Rightarrow> json \<Rightarrow> exn + database \<times> content fs" where
  "set_delete db fs t k v = then_do (db_set db fs t k v) (\<lambda>(db1, fs1). db_delete db1 fs1 t k)"

definition new_store :: database where
  "new_store = \<lparr>base_path = ''./db/'', tables = []\<rparr>"

definition dangling_store :: database where
  "dangling_store = \<lparr>base_path = ''./db/'', tables = [(''t'', [(''k'', ''./db/t/keys/k.json'')])]\<rparr>"

definition dangling_files :: "content fs" where
  "dangling_files =
     [[''db''] \<mapsto> Dir, [''db'', ''t''] \<mapsto> Dir, [''db'', ''t'', ''keys''] \<mapsto> Dir,
      [''db'', ''t'', ''index.json''] \<mapsto>
        File (JsonText (JObj [(''k'', JStr ''./db/t/keys/k.json'')]))]"

section \<open>Properties of the response writer\<close>

lemma written_append: "written (w @ v) = written w @ written v"
  by (induction w rule: written.induct) simp_all



text \<open>
  The encoder: it goes through a text piece by piece, it writes a character of ASCII as the
  byte of its number, and no character of a \<open>string\<close> is a surrogate. One code point of
  each length: \<open>A\<close>, e with acute, the euro sign and an emoji.
\<close>

lemma utf8_bytes_append: "utf8_bytes (a @ b) = utf8_bytes a @ utf8_bytes b"
  by (simp add: utf8_bytes_def)

lemma utf8_cp_examples:
  "utf8_cp 0x41 = [0x41]"
  "utf8_cp 0xE9 = [0xC3, 0xA9]"
  "utf8_cp 0x20AC = [0xE2, 0x82, 0xAC]"
  "utf8_cp 0x1F600 = [0xF0, 0x9F, 0x98, 0x80]"
  by (simp_all add: utf8_cp_def)

lemma length_utf8_cp:
  "length (utf8_cp n) = (if n < 0x80 then 1 else if n < 0x800 then 2 else if n < 0x10000 then 3 else 4)"
  by (simp add: utf8_cp_def)

text \<open>
  The bytes of a code point as numbers, for the four lengths of an encoding: the leading
  byte holds the length and the high bits, every further byte \<open>0x80\<close> and six bits.
\<close>

lemma unat_byte: "k < 256 \<Longrightarrow> unat (of_nat k :: 8 word) = k"
  by (simp add: unat_of_nat)

lemma utf8_cp_numbers:
  "n < 0x80 \<Longrightarrow> map unat (utf8_cp n) = [n]"
  "0x80 \<le> n \<Longrightarrow> n < 0x800 \<Longrightarrow>
     map unat (utf8_cp n) = [0xC0 + n div 0x40, 0x80 + n mod 0x40]"
  "0x800 \<le> n \<Longrightarrow> n < 0x10000 \<Longrightarrow>
     map unat (utf8_cp n) = [0xE0 + n div 0x1000, 0x80 + n div 0x40 mod 0x40, 0x80 + n mod 0x40]"
  "0x10000 \<le> n \<Longrightarrow> n < 0x110000 \<Longrightarrow>
     map unat (utf8_cp n) =
       [0xF0 + n div 0x40000, 0x80 + n div 0x1000 mod 0x40, 0x80 + n div 0x40 mod 0x40,
        0x80 + n mod 0x40]"
proof -
  show "n < 0x80 \<Longrightarrow> map unat (utf8_cp n) = [n]"
    by (simp add: utf8_cp_def unat_byte del: of_nat_add)
next
  assume "0x80 \<le> n" and "n < 0x800"
  moreover from this have "0xC0 + n div 0x40 < 256" and "0x80 + n mod 0x40 < 256"
    by simp_all
  ultimately show "map unat (utf8_cp n) = [0xC0 + n div 0x40, 0x80 + n mod 0x40]"
    by (simp add: utf8_cp_def unat_byte del: of_nat_add)
next
  assume "0x800 \<le> n" and "n < 0x10000"
  moreover from this have "0xE0 + n div 0x1000 < 256" and "0x80 + n div 0x40 mod 0x40 < 256"
    and "0x80 + n mod 0x40 < 256"
    by simp_all
  ultimately show "map unat (utf8_cp n) =
      [0xE0 + n div 0x1000, 0x80 + n div 0x40 mod 0x40, 0x80 + n mod 0x40]"
    by (simp add: utf8_cp_def unat_byte del: of_nat_add)
next
  assume "0x10000 \<le> n" and "n < 0x110000"
  moreover from this have "0xF0 + n div 0x40000 < 256" and "0x80 + n div 0x1000 mod 0x40 < 256"
    and "0x80 + n div 0x40 mod 0x40 < 256" and "0x80 + n mod 0x40 < 256"
    by simp_all
  ultimately show "map unat (utf8_cp n) =
      [0xF0 + n div 0x40000, 0x80 + n div 0x1000 mod 0x40, 0x80 + n div 0x40 mod 0x40,
       0x80 + n mod 0x40]"
    by (simp add: utf8_cp_def unat_byte del: of_nat_add)
qed

lemma ascii_append: "ascii (a @ b) = (ascii a \<and> ascii b)"
  by (simp add: ascii_def)

lemma utf8_bytes_ascii: "ascii s \<Longrightarrow> utf8_bytes (ustr s) = ascii_bytes s"
  by (induction s) (simp_all add: ascii_def utf8_bytes_def ustr_def ascii_bytes_def utf8_cp_def)

lemma of_char_less_256: "(of_char c :: nat) < 256"
  by (cases c) simp

lemma no_surrogate_ustr: "\<not> list_ex surrogate (ustr s)"
proof -
  have "\<not> surrogate (of_char c)" for c
    using of_char_less_256 [of c] unfolding surrogate_def by linarith
  then show ?thesis
    by (simp add: ustr_def list_ex_iff)
qed

lemma ustr_append: "ustr (a @ b) = ustr a @ ustr b"
  by (simp add: ustr_def)

lemma digit_char_ascii: "d < 10 \<Longrightarrow> (of_char (digit_char d) :: nat) = 48 + d"
proof -
  assume "d < 10"
  then have "d \<in> {0, 1, 2, 3, 4, 5, 6, 7, 8, 9}"
    by auto
  then show ?thesis
    by (auto simp: digit_char_def)
qed

lemma ascii_str_nat: "ascii (str_nat n)"
proof (induction n rule: str_nat.induct)
  case (1 n)
  show ?case
  proof (cases "n < 10")
    case True
    then show ?thesis
      by (subst str_nat.simps) (simp add: ascii_def digit_char_ascii)
  next
    case False
    then have "ascii (str_nat (n div 10))" by (rule "1.IH")
    moreover have "(of_char (digit_char (n mod 10)) :: nat) < 128"
      by (simp add: digit_char_ascii)
    ultimately show ?thesis
      using False by (subst str_nat.simps) (simp add: ascii_def)
  qed
qed

lemma ascii_str_int: "ascii (str_int i)"
  using ascii_str_nat by (simp add: str_int_def ascii_def)

lemma dec_value_snoc: "dec_value (s @ [c]) = 10 * dec_value s + (of_char c - 48)"
  by (simp add: dec_value_def)

text \<open>The digits \<open>str\<close> writes for a number denote that number.\<close>

lemma dec_value_str_nat: "dec_value (str_nat n) = n"
proof (induction n rule: str_nat.induct)
  case (1 n)
  show ?case
  proof (cases "n < 10")
    case True
    then show ?thesis
      by (subst str_nat.simps) (simp add: dec_value_def digit_char_ascii)
  next
    case False
    then have "dec_value (str_nat (n div 10)) = n div 10" by (rule "1.IH")
    then show ?thesis
      using False by (subst str_nat.simps) (simp add: dec_value_snoc digit_char_ascii)
  qed
qed

lemma encode_utf8_ok: "\<not> list_ex surrogate s \<Longrightarrow> encode_utf8 s = Inr (utf8_bytes s)"
  by (simp add: encode_utf8_def)

lemma send_unencodable:
  "list_ex surrogate (content_type @ bdy) \<Longrightarrow>
   send w bdy status_code content_type = (w, Some UnicodeEncodeError)"
  by (auto simp: send_def encode_utf8_def Let_def)

lemma send_response:
  assumes "\<not> list_ex surrogate (content_type @ bdy)"
  shows "send w bdy status_code content_type =
     (w @ [Write (ascii_bytes (''HTTP/1.1 '' @ str_int status_code @ '' OK'') @ ascii_bytes CRLF @
                  ascii_bytes ''Content-Type: '' @ utf8_bytes content_type @ ascii_bytes CRLF @
                  ascii_bytes (''Content-Length: '' @ str_nat (length (utf8_bytes bdy))) @
                  ascii_bytes CRLF @
                  ascii_bytes CRLF @
                  utf8_bytes bdy),
           Drain, Close], None)"
proof -
  let ?line = "''HTTP/1.1 '' @ str_int status_code @ '' OK''"
  let ?len = "''Content-Length: '' @ str_nat (length (utf8_bytes bdy))"
  let ?all = "ustr (?line @ CRLF) @
      (ustr ''Content-Type: '' @ content_type @ ustr CRLF @ ustr (?len @ CRLF @ CRLF)) @ bdy"
  have b: "encode_utf8 bdy = Inr (utf8_bytes bdy)"
    using assms by (simp add: encode_utf8_ok)
  have "\<not> list_ex surrogate ?all"
    using assms no_surrogate_ustr by (simp add: list_ex_iff) blast
  then have e: "encode_utf8 ?all = Inr (utf8_bytes ?all)"
    by (rule encode_utf8_ok)
  have a1: "ascii ?line" and a2: "ascii CRLF" and a3: "ascii ''Content-Type: ''" and a4: "ascii ?len"
    using ascii_str_int [of status_code] ascii_str_nat [of "length (utf8_bytes bdy)"]
    by (simp_all add: ascii_def CRLF_def)
  have "utf8_bytes ?all =
      utf8_bytes (ustr ?line) @ utf8_bytes (ustr CRLF) @ utf8_bytes (ustr ''Content-Type: '') @
      utf8_bytes content_type @ utf8_bytes (ustr CRLF) @ utf8_bytes (ustr ?len) @
      utf8_bytes (ustr CRLF) @ utf8_bytes (ustr CRLF) @ utf8_bytes bdy"
    by (simp only: ustr_append utf8_bytes_append append_assoc)
  then have "utf8_bytes ?all =
      ascii_bytes ?line @ ascii_bytes CRLF @ ascii_bytes ''Content-Type: '' @
      utf8_bytes content_type @ ascii_bytes CRLF @ ascii_bytes ?len @
      ascii_bytes CRLF @ ascii_bytes CRLF @ utf8_bytes bdy"
    by (simp only: utf8_bytes_ascii [OF a1] utf8_bytes_ascii [OF a2] utf8_bytes_ascii [OF a3]
        utf8_bytes_ascii [OF a4])
  with b e show ?thesis
    by (simp add: send_def Let_def wwrite_def wdrain_def wclose_def)
qed

text \<open>
  Claim C9, amended. For every status code and for every body and content type that hold
  no surrogate, \<open>send\<close> makes exactly three calls on the stream: one write, a drain and a
  close. The bytes written are the status line \<open>HTTP/1.1 <code> OK\<close>, CRLF, the
  Content-Type header, CRLF, the Content-Length header, CRLF, a blank line and the UTF-8
  encoding of the body, in this order, and the digits in the Content-Length header denote
  the number of bytes of the encoded body.
\<close>

theorem send_wire_format:
  assumes "\<not> list_ex surrogate (content_type @ bdy)"
  shows "send w bdy status_code content_type =
     (w @ [Write (ascii_bytes (''HTTP/1.1 '' @ str_int status_code @ '' OK'') @ ascii_bytes CRLF @
                  ascii_bytes ''Content-Type: '' @ utf8_bytes content_type @ ascii_bytes CRLF @
                  ascii_bytes (''Content-Length: '' @ str_nat (length (utf8_bytes bdy))) @
                  ascii_bytes CRLF @
                  ascii_bytes CRLF @
                  utf8_bytes bdy),
           Drain, Close], None) \<and>
     dec_value (str_nat (length (utf8_bytes bdy))) = length (utf8_bytes bdy)"
  using send_response [OF assms] dec_value_str_nat by simp

lemma str_nat_10: "str_nat 10 = ''10''"
  by (simp add: str_nat.simps digit_char_def)


lemma str_int_200: "str_int 200 = ''200''"
  by (simp add: str_int_def str_nat.simps digit_char_def)


text \<open>
  The body \<open>h\<close>, e with acute, euro sign, emoji has four characters and ten bytes; the
  response, byte by byte.
\<close>

theorem send_wire_format_witness:
  "send [] [0x68, 0xE9, 0x20AC, 0x1F600] 200 (ustr ''text/plain'') =
     ([Write
      [72, 84, 84, 80, 47, 49, 46, 49, 32, 50, 48, 48, 32, 79, 75, 13, 10, 67, 111,
       110, 116, 101, 110, 116, 45, 84, 121, 112, 101, 58, 32, 116, 101, 120, 116, 47,
       112, 108, 97, 105, 110, 13, 10, 67, 111, 110, 116, 101, 110, 116, 45, 76, 101,
       110, 103, 116, 104, 58, 32, 49, 48, 13, 10, 13, 10, 104, 195, 169, 226, 130,
       172, 240, 159, 152, 128],
       Drain, Close], None)"
proof -
  have ok: "\<not> list_ex surrogate (ustr ''text/plain'' @ [0x68, 0xE9, 0x20AC, 0x1F600])"
    by (simp add: ustr_def surrogate_def)
  have len: "length (utf8_bytes [0x68, 0xE9, 0x20AC, 0x1F600]) = 10"
    by (simp add: utf8_bytes_def utf8_cp_def)
  show ?thesis
    using send_wire_format [OF ok, of "[]" 200] unfolding len str_nat_10 str_int_200
    by (simp add: ascii_bytes_def CRLF_def utf8_bytes_def utf8_cp_def ustr_def)
qed

text \<open>
  Claim C9 as it is stated fails on a body that holds a surrogate, as \<open>json.loads\<close> gives for
  the text \<open>"\ud800"\<close>: the encoding raises on line 23, nothing is written and the stream
  is not closed.
\<close>

theorem send_wire_format_counterexample:
  "send [] [0xD800] 200 (ustr ''text/plain'') = ([], Some UnicodeEncodeError)"
  by (simp add: send_def encode_utf8_def surrogate_def)





lemma open_read_not_found:
  "open_read fs p = Inl FileNotFoundError \<Longrightarrow> \<not> path_exists fs p"
  by (auto simp: path_exists_def open_read_def resolve_def is_dir_def
      split: sum.splits if_splits option.splits node.splits)




section \<open>Properties of the wire codec\<close>

lemma find_sep_colon_append:
  "find_sep '': '' cur k = None \<Longrightarrow> find_sep '': '' cur (k @ '': '' @ v) = Some (cur @ k, v)"
proof (induction k arbitrary: cur)
  case Nil
  then show ?case by simp
next
  case (Cons c cs)
  from Cons.prems have ne: "take 2 (c # cs) \<noteq> '': ''"
    and rec: "find_sep '': '' (cur @ [c]) cs = None"
    by (auto split: if_splits)
  have "take 2 ((c # cs) @ '': '' @ v) \<noteq> '': ''"
    using ne by (cases cs) auto
  then show ?case
    using Cons.IH [OF rec] by simp
qed

lemma split_once_colon_append:
  "split_once '': '' k = None \<Longrightarrow> split_once '': '' (k @ '': '' @ v) = Some (k, v)"
  using find_sep_colon_append [of "[]" k v] by (simp add: split_once_def)

lemma header_loop_fold:
  "\<forall>l \<in> set hs. l \<noteq> [] \<Longrightarrow> rest = [] \<or> hd rest = [] \<Longrightarrow>
   header_loop (hs @ rest) h = (fold header_step hs h, rest)"
proof (induction hs arbitrary: h)
  case Nil
  then show ?case by (cases rest) auto
next
  case (Cons l ls)
  then show ?case by simp
qed

lemma fold_header_step_keeps:
  "map_of h k = Some v \<Longrightarrow> \<forall>l \<in> set ls. \<forall>v'. split_once '': '' l \<noteq> Some (k, v') \<Longrightarrow>
   map_of (fold header_step ls h) k = Some v"
proof (induction ls arbitrary: h)
  case Nil
  then show ?case by simp
next
  case (Cons l ls)
  have "map_of (header_step l h) k = Some v"
    using Cons.prems by (auto simp: header_step_def update_conv' split: option.splits)
  with Cons show ?case by simp
qed

text \<open>
  Claim C10. Take a request text whose lines after the request line, up to the blank line
  or the end, are \<open>pre\<close>, then a header line with key \<open>k\<close> and value \<open>v\<close>, then \<open>post\<close>, where
  no line of \<open>post\<close> carries the key \<open>k\<close>: whatever lines of \<open>pre\<close> carry \<open>k\<close>, the header
  mapping binds \<open>k\<close> to \<open>v\<close>, the value of the last line with that key.
\<close>

theorem parse_request_last_header_wins:
  assumes lines: "split CRLF text = rl # pre @ [k @ '': '' @ v] @ post @ rest"
    and nonblank: "\<forall>l \<in> set (pre @ post). l \<noteq> []"
    and ends: "rest = [] \<or> hd rest = []"
    and key: "split_once '': '' k = None"
    and last: "\<forall>l \<in> set post. \<forall>v'. split_once '': '' l \<noteq> Some (k, v')"
  shows "map_of (fst (snd (parse_request text))) k = Some v"
proof -
  let ?hs = "pre @ [k @ '': '' @ v] @ post"
  have nb: "\<forall>l \<in> set ?hs. l \<noteq> []"
    using nonblank by auto
  have loop: "header_loop (?hs @ rest) [] = (fold header_step ?hs [], rest)"
    using header_loop_fold [OF nb ends] .
  have "map_of (header_step (k @ '': '' @ v) (fold header_step pre [])) k = Some v"
    using split_once_colon_append [OF key, of v] by (simp add: header_step_def update_conv')
  then have "map_of (fold header_step ?hs []) k = Some v"
    using fold_header_step_keeps [OF _ last] by simp
  then show ?thesis
    using loop lines by (simp add: parse_request_def)
qed

lemma split_example:
  "split CRLF (''GET / HTTP/1.1'' @ CRLF @ ''X: 1'' @ CRLF @ ''X: 2'' @ CRLF @ CRLF) =
     ''GET / HTTP/1.1'' # [''X: 1''] @ [''X'' @ '': '' @ ''2''] @ [] @ [[], []]"
  by (simp add: split_def split_acc.simps CRLF_def)

theorem parse_request_last_header_wins_witness:
  "map_of (fst (snd (parse_request
      (''GET / HTTP/1.1'' @ CRLF @ ''X: 1'' @ CRLF @ ''X: 2'' @ CRLF @ CRLF)))) ''X'' = Some ''2''"
proof -
  have key: "split_once '': '' ''X'' = None"
    by (simp add: split_once_def)
  show ?thesis
    using parse_request_last_header_wins [OF split_example _ _ key] by simp
qed

section \<open>Properties of the connection handler\<close>

text \<open>
  Claim C8. If the read returns no data, or the request line of the decoded text splits on
  spaces into fewer than three tokens, the handler makes one call on the stream, a close:
  nothing is written and no exception leaves the handler.
\<close>

theorem handle_client_silent_close:
  assumes "data = [] \<or> length (split '' '' (fst (parse_request (decode data)))) < 3"
  shows "handle_client decode loads rs data w = (w @ [Close], None) \<and>
         written (fst (handle_client decode loads rs data w)) = written w"
  using assms
  by (auto simp: handle_client_def wclose_def Let_def written_append split: prod.splits)

theorem handle_client_silent_close_witness:
  "handle_client (map (\<lambda>b. char_of (unat b))) (\<lambda>s. None) []
     [0x47, 0x45, 0x54, 0x20, 0x2F, 0x0D, 0x0A, 0x0D, 0x0A] [] = ([Close], None) \<and>
   written (fst (handle_client (map (\<lambda>b. char_of (unat b))) (\<lambda>s. None) []
     [0x47, 0x45, 0x54, 0x20, 0x2F, 0x0D, 0x0A, 0x0D, 0x0A] [])) = []"
proof -
  have short: "[0x47, 0x45, 0x54, 0x20, 0x2F, 0x0D, 0x0A, 0x0D, 0x0A] = ([] :: bytes) \<or>
    length (split '' '' (fst (parse_request (map (\<lambda>b. char_of (unat b))
      [0x47, 0x45, 0x54, 0x20, 0x2F, 0x0D, 0x0A, 0x0D, 0x0A :: 8 word])))) < 3"
    by code_simp
  show ?thesis
    using short handle_client_silent_close
      [where decode = "map (\<lambda>b. char_of (unat b))"
         and data = "[0x47, 0x45, 0x54, 0x20, 0x2F, 0x0D, 0x0A, 0x0D, 0x0A]"
         and loads = "\<lambda>s. None" and rs = "[]" and w = "[]"]
    by simp
qed

lemma new_request_raises:
  "new_request loads m p h b = Inl AttributeError \<or> new_request loads m p h b = Inl JSONDecodeError"
  by (simp add: new_request_def split: option.splits)

lemma new_request_no_body: "new_request loads m p h [] = Inl AttributeError"
  by (simp add: new_request_def)

lemma handle_client_raises:
  assumes "data \<noteq> []" and "parse_request (decode data) = (request_line, hdrs, bdy)"
    and "\<not> length (split '' '' request_line) < 3"
  shows "\<exists>e. handle_client decode loads rs data w = (w, Some e) \<and>
             (e = AttributeError \<or> e = JSONDecodeError)"
proof -
  let ?parts = "split '' '' request_line"
  obtain e where e: "new_request loads (?parts ! 0) (?parts ! 1) hdrs bdy = Inl e"
    and kind: "e = AttributeError \<or> e = JSONDecodeError"
    using new_request_raises [of loads "?parts ! 0" "?parts ! 1" hdrs bdy] by blast
  have "handle_client decode loads rs data w = (w, Some e)"
    using assms e by (simp add: handle_client_def)
  with kind show ?thesis by blast
qed

text \<open>
  No call of the connection handler reaches the loop over the routes: the outcome is the
  silent close, or the exception of the constructor with nothing written and the stream
  left open, and it is the same whatever routes are registered.
\<close>

lemma handle_client_outcomes:
  "handle_client decode loads rs data w = (w @ [Close], None) \<or>
   handle_client decode loads rs data w = (w, Some AttributeError) \<or>
   handle_client decode loads rs data w = (w, Some JSONDecodeError)"
proof (cases "data = [] \<or> length (split '' '' (fst (parse_request (decode data)))) < 3")
  case True
  then show ?thesis
    by (auto simp: handle_client_def wclose_def Let_def split: prod.splits)
next
  case False
  obtain request_line hdrs bdy where p: "parse_request (decode data) = (request_line, hdrs, bdy)"
    by (cases "parse_request (decode data)") auto
  with False handle_client_raises [of data decode request_line hdrs bdy loads rs w]
  show ?thesis by auto
qed

lemma handle_client_ignores_routes:
  "handle_client decode loads rs data w = handle_client decode loads [] data w"
proof (cases "data = [] \<or> length (split '' '' (fst (parse_request (decode data)))) < 3")
  case True
  then show ?thesis
    by (auto simp: handle_client_def Let_def split: prod.splits)
next
  case False
  obtain request_line hdrs bdy where p: "parse_request (decode data) = (request_line, hdrs, bdy)"
    by (cases "parse_request (decode data)") auto
  let ?parts = "split '' '' request_line"
  obtain e where e: "new_request loads (?parts ! 0) (?parts ! 1) hdrs bdy = Inl e"
    using new_request_raises [of loads "?parts ! 0" "?parts ! 1" hdrs bdy] by blast
  with False p show ?thesis
    by (simp add: handle_client_def)
qed

lemma on_appends:
  "compile_path tab p = Some (Inr regex) \<Longrightarrow>
   on tab srv p m func = Some (Inr (srv\<lparr>routes := routes srv @ [(m, regex, func)]\<rparr>))"
  by (simp add: on_def)

text \<open>
  The loop of lines 74 to 79 on its own, were it given a request: it runs the handler of
  the first route of the list whose method is that of the request and whose pattern
  matches the path, and a route with another method is passed over.
\<close>

lemma dispatch_skips_other_method:
  "m \<noteq> method' req \<Longrightarrow> dispatch (before @ (m, r, h) # after) req w = dispatch (before @ after) req w"
  by (induction before) (auto split: option.splits)

lemma dispatch_loop:
  "dispatch rs req w =
     (case find (\<lambda>(m, r, h). m = method' req \<and> re_match r (ustr (path req)) \<noteq> None) rs of
        None \<Rightarrow> send w (ustr ''404 Not Found'') 404 (ustr ''text/plain'')
      | Some (m, r, h) \<Rightarrow> h req w (the (re_match r (ustr (path req)))))"
  by (induction rs req w rule: dispatch.induct) (auto split: option.splits)

text \<open>
  Claim C3 fails on the code as it is. \<open>on\<close> registers a route for \<open>GET\<close> and the path \<open>/\<close>,
  and the server reads the request \<open>GET / HTTP/1.1\<close> with no header and no body. Method and
  path are those of the route and the pattern matches the whole path, so the claim has
  this route selected. The code raises \<open>AttributeError\<close> on line 71, where the constructor
  of \<open>Request\<close> assigns to \<open>bodyJson\<close>, which is not among the slots of line 8: the loop of
  lines 74 to 79 is not reached, no route is selected whatever the handler is, nothing is
  written and the stream is not closed.
\<close>

theorem handle_client_selects_no_route:
  "on tab \<lparr>port = 8080, routes = []\<rparr> (ustr ''/'') ''GET'' h =
     Some (Inr \<lparr>port = 8080, routes = [(''GET'', [Bol, Lit 0x2F, Eol], h)]\<rparr>) \<and>
   re_match [Bol, Lit 0x2F, Eol] (ustr ''/'') = Some [] \<and>
   handle_client (map (\<lambda>b. char_of (unat b))) loads [(''GET'', [Bol, Lit 0x2F, Eol], h)]
     [0x47, 0x45, 0x54, 0x20, 0x2F, 0x20, 0x48, 0x54, 0x54, 0x50, 0x2F, 0x31, 0x2E, 0x31,
      0x0D, 0x0A, 0x0D, 0x0A] [] = ([], Some AttributeError)"
proof -
  have "compile_path tab (ustr ''/'') = Some (Inr [Bol, Lit 0x2F, Eol])"
    by (simp add: compile_path_def re_compile_def ustr_def match_bracket_def special_def)
  then have registered: "on tab \<lparr>port = 8080, routes = []\<rparr> (ustr ''/'') ''GET'' h =
     Some (Inr \<lparr>port = 8080, routes = [(''GET'', [Bol, Lit 0x2F, Eol], h)]\<rparr>)"
    by (simp add: on_def)
  have matches: "re_match [Bol, Lit 0x2F, Eol] (ustr ''/'') = Some []"
    by (simp add: re_match_def ustr_def)
  have parsed: "parse_request (map (\<lambda>b. char_of (unat b))
      [0x47, 0x45, 0x54, 0x20, 0x2F, 0x20, 0x48, 0x54, 0x54, 0x50, 0x2F, 0x31, 0x2E, 0x31,
       0x0D, 0x0A, 0x0D, 0x0A :: 8 word]) = (''GET / HTTP/1.1'', [], [])"
    by code_simp
  have parts: "split '' '' ''GET / HTTP/1.1'' = [''GET'', ''/'', ''HTTP/1.1'']"
    by code_simp
  have "handle_client (map (\<lambda>b. char_of (unat b))) loads [(''GET'', [Bol, Lit 0x2F, Eol], h)]
     [0x47, 0x45, 0x54, 0x20, 0x2F, 0x20, 0x48, 0x54, 0x54, 0x50, 0x2F, 0x31, 0x2E, 0x31,
      0x0D, 0x0A, 0x0D, 0x0A] [] = ([], Some AttributeError)"
    unfolding handle_client_def parsed by (simp add: parts new_request_no_body)
  with registered matches show ?thesis
    by simp
qed

section \<open>Properties of the router\<close>

lemma regex_source_simps:
  "regex_source [] = []"
  "regex_source (Text t # ps) = t @ regex_source ps"
  "regex_source (Param n v # ps) = ustr ''(?P<'' @ n @ ustr ''>[^/]+)'' @ regex_source ps"
  by (simp_all add: regex_source_def)

lemma plain_not_meta: "plain c \<Longrightarrow> c \<noteq> 0x5B \<and> c \<noteq> 0x28 \<and> c \<noteq> 0x5E \<and> c \<noteq> 0x24"
  by (auto simp: plain_def special_def ustr_def)

lemma sub_brackets_plain:
  "list_all plain t \<Longrightarrow> sub_brackets tab (t @ s) = t @ sub_brackets tab s"
proof (induction t)
  case Nil
  then show ?case by simp
next
  case (Cons c cs)
  then have "match_bracket tab (c # cs @ s) = None"
    by (auto simp: match_bracket_def dest: plain_not_meta)
  with Cons show ?case by simp
qed

lemma is_word_not_close: "is_word tab c \<Longrightarrow> c \<noteq> 0x5D \<and> c \<noteq> 0x3E"
  by (auto simp: is_word_def split: if_splits)

lemma match_bracket_name:
  assumes "param_name tab name"
  shows "match_bracket tab (ustr ''['' @ name @ ustr '']'' @ post) = Some (name, post)"
proof -
  have w: "\<forall>c \<in> set name. is_word tab c" and ne: "name \<noteq> []"
    using assms by (auto simp: param_name_def is_identifier_def list_all_iff)
  have nw: "\<not> is_word tab 0x5D"
    using is_word_not_close [of tab "0x5D"] by auto
  have "takeWhile (is_word tab) (name @ 0x5D # post) = name"
    using w nw by (simp add: takeWhile_append2)
  moreover have "dropWhile (is_word tab) (name @ 0x5D # post) = 0x5D # post"
    using w nw by (simp add: dropWhile_append2)
  ultimately show ?thesis
    using ne by (simp add: match_bracket_def ustr_def)
qed

lemma sub_brackets_pieces:
  "pieces_ok tab ps \<Longrightarrow> sub_brackets tab (pattern_of ps @ s) = regex_source ps @ sub_brackets tab s"
proof (induction ps)
  case Nil
  then show ?case by (simp add: regex_source_simps)
next
  case (Cons p ps)
  show ?case
  proof (cases p)
    case (Text t)
    with Cons show ?thesis
      by (simp add: regex_source_simps sub_brackets_plain)
  next
    case (Param n v)
    with Cons.prems have n: "param_name tab n" and ok: "pieces_ok tab ps"
      by simp_all
    have "sub_brackets tab (ustr ''['' @ n @ ustr '']'' @ (pattern_of ps @ s)) =
        ustr ''(?P<'' @ n @ ustr ''>[^/]+)'' @ sub_brackets tab (pattern_of ps @ s)"
      using match_bracket_name [OF n, of "pattern_of ps @ s"] by (simp add: ustr_def)
    with Param Cons.IH [OF ok] show ?thesis
      by (simp add: regex_source_simps)
  qed
qed

lemma re_parse_plain:
  "list_all plain s \<Longrightarrow>
   re_parse tab seen (s @ t) = foldr cons_atom (map atom_of s) (re_parse tab seen t)"
proof (induction s)
  case Nil
  then show ?case by simp
next
  case (Cons c cs)
  then have "plain c" by simp
  then have "re_parse tab seen (c # cs @ t) = cons_atom (atom_of c) (re_parse tab seen (cs @ t))"
    by (auto simp: plain_def special_def atom_of_def ustr_def)
  with Cons show ?case by simp
qed

lemma re_parse_group:
  assumes "param_name tab name" and "name \<notin> set seen"
  shows "re_parse tab seen (ustr ''(?P<'' @ name @ ustr ''>[^/]+)'' @ t) =
           cons_atom (Group name) (re_parse tab (name # seen) t)"
proof -
  have w: "\<forall>c \<in> set name. c \<noteq> 0x3E" and i: "is_identifier tab name"
    using assms(1) by (auto simp: param_name_def list_all_iff dest: is_word_not_close)
  have tw: "takeWhile (\<lambda>x. x \<noteq> 0x3E) (name @ ustr ''>[^/]+)'' @ t) = name"
    using w by (simp add: takeWhile_append2 ustr_def)
  have dw: "dropWhile (\<lambda>x. x \<noteq> 0x3E) (name @ ustr ''>[^/]+)'' @ t) = ustr ''>[^/]+)'' @ t"
    using w by (simp add: dropWhile_append2 ustr_def)
  have "re_parse tab seen (ustr ''(?P<'' @ (name @ ustr ''>[^/]+)'' @ t)) =
           cons_atom (Group name) (re_parse tab (name # seen) t)"
    using assms(2) i tw dw by (simp add: ustr_def)
  then show ?thesis by simp
qed

lemma foldr_cons_atom: "foldr cons_atom as (Some (Inr r)) = Some (Inr (as @ r))"
  by (induction as) simp_all

lemma re_parse_pieces:
  "pieces_ok tab ps \<Longrightarrow> distinct (names ps) \<Longrightarrow> set (names ps) \<inter> set seen = {} \<Longrightarrow>
   re_parse tab seen (regex_source ps @ ustr ''$'') = Some (Inr (atoms ps @ [Eol]))"
proof (induction ps arbitrary: seen)
  case Nil
  then show ?case by (simp add: regex_source_simps ustr_def special_def)
next
  case (Cons p ps)
  show ?case
  proof (cases p)
    case (Text t)
    with Cons.prems have t: "list_all plain t" and ok: "pieces_ok tab ps"
      and d: "distinct (names ps)" and s: "set (names ps) \<inter> set seen = {}"
      by (simp_all add: names_def)
    show ?thesis
      using Text Cons.IH [OF ok d s] re_parse_plain [OF t, of tab seen "regex_source ps @ ustr ''$''"]
      by (simp add: regex_source_simps foldr_cons_atom)
  next
    case (Param n v)
    with Cons.prems have n: "param_name tab n" and ok: "pieces_ok tab ps"
      and d: "distinct (names ps)" and new: "n \<notin> set seen"
      and s: "set (names ps) \<inter> set (n # seen) = {}"
      by (auto simp: names_def)
    show ?thesis
      using Param Cons.IH [OF ok d s] re_parse_group [OF n new, of "regex_source ps @ ustr ''$''"]
      by (simp add: regex_source_simps)
  qed
qed

lemma compile_path_pieces:
  assumes "well_formed tab ps"
  shows "compile_path tab (pattern_of ps) = Some (Inr (Bol # atoms ps @ [Eol]))"
proof -
  have ok: "pieces_ok tab ps" and d: "distinct (names ps)"
    using assms by (simp_all add: well_formed_def)
  have "sub_brackets tab (pattern_of ps) = regex_source ps"
    using sub_brackets_pieces [OF ok, of "[]"] by simp
  moreover have "re_parse tab [] (regex_source ps @ ustr ''$'') = Some (Inr (atoms ps @ [Eol]))"
    using re_parse_pieces [OF ok d, of "[]"] by simp
  ultimately show ?thesis
    by (simp add: compile_path_def re_compile_def ustr_def)
qed

lemma re_match_plain_prefix:
  "list_all plain t \<Longrightarrow>
   re_match_from b (map atom_of t @ r) (t @ s) = re_match_from (b \<and> t = []) r s"
proof (induction t arbitrary: b)
  case Nil
  then show ?case by simp
next
  case (Cons c cs)
  then show ?case by (simp add: atom_of_def)
qed

lemma re_match_too_short:
  "length s < length t \<Longrightarrow> re_match_from b (map atom_of t @ [Eol]) s = None"
proof (induction t arbitrary: s b)
  case Nil
  then show ?case by simp
next
  case (Cons c cs)
  then show ?case by (cases s) (auto simp: atom_of_def)
qed

lemma filter_rev_upt_first:
  assumes "1 \<le> n" and "n \<le> K" and "P n" and "\<forall>k. n < k \<and> k \<le> K \<longrightarrow> \<not> P k"
  shows "filter P (rev [1 ..< Suc K]) = n # filter P (rev [1 ..< n])"
proof -
  have "[1 ..< Suc K] = [1 ..< n] @ n # [Suc n ..< Suc K]"
  proof -
    obtain d where d: "Suc K = n + d" and "0 < d"
      using assms(2) by (metis add_Suc_right le_Suc_ex zero_less_Suc)
    have "[1 ..< n + d] = [1 ..< n] @ [n ..< n + d]"
      using assms(1) by (rule upt_add_eq_append)
    moreover have "[n ..< n + d] = n # [Suc n ..< n + d]"
      using \<open>0 < d\<close> by (simp add: upt_conv_Cons)
    ultimately show ?thesis
      using d by simp
  qed
  moreover have "filter P (rev [Suc n ..< Suc K]) = []"
    using assms(4) by (auto simp: filter_empty_conv)
  ultimately show ?thesis
    using assms(3) by simp
qed

text \<open>A pattern with no segment is its own path, and its atoms are those of its text.\<close>

lemma no_segment:
  "bindings ps = [] \<Longrightarrow> atoms ps = map atom_of (path_of ps)"
proof (induction ps)
  case Nil
  then show ?case by simp
next
  case (Cons p ps)
  then show ?case by (cases p) simp_all
qed

lemma slash_first:
  "take 1 (pattern_of ps) = ustr ''/'' \<Longrightarrow> take 1 (path_of ps) = ustr ''/''"
proof (induction ps)
  case Nil
  then show ?case by simp
next
  case (Cons p ps)
  show ?case
  proof (cases p)
    case (Text t)
    with Cons show ?thesis by (cases t) simp_all
  next
    case (Param n v)
    with Cons.prems show ?thesis by (simp add: ustr_def)
  qed
qed

text \<open>
  The group takes the value and no more: a longer run either meets the \<open>/\<close> that follows
  the value, or leaves too little of the path for the text that remains.
\<close>

lemma re_match_group_value:
  assumes v: "segment_value v"
    and after: "take 1 (path_of ps) = ustr ''/'' \<or> bindings ps = []"
    and rest: "re_match_from False (atoms ps @ [Eol]) (path_of ps) = Some d"
  shows "re_match_from b (Group n # atoms ps @ [Eol]) (v @ path_of ps) = Some ((n, v) # d)"
proof -
  let ?R = "atoms ps @ [Eol]"
  let ?s = "v @ path_of ps"
  let ?P = "\<lambda>k. re_match_from False ?R (drop k ?s) \<noteq> None"
  let ?K = "length (takeWhile (\<lambda>c. c \<noteq> 0x2F) ?s)"
  have ne: "v \<noteq> []" and ns: "0x2F \<notin> set v"
    using v by (simp_all add: segment_value_def)
  have tw: "takeWhile (\<lambda>c. c \<noteq> 0x2F) ?s = v @ takeWhile (\<lambda>c. c \<noteq> 0x2F) (path_of ps)"
    using ns by (intro takeWhile_append2) auto
  then have K: "length v \<le> ?K" by simp
  have n1: "1 \<le> length v"
    using ne by (cases v) simp_all
  have Pn: "?P (length v)"
    using rest by simp
  have later: "\<forall>k. length v < k \<and> k \<le> ?K \<longrightarrow> \<not> ?P k"
  proof (intro allI impI)
    fix k
    assume k: "length v < k \<and> k \<le> ?K"
    show "\<not> ?P k"
    proof (cases "take 1 (path_of ps) = ustr ''/''")
      case True
      then have "takeWhile (\<lambda>c. c \<noteq> 0x2F) (path_of ps) = []"
        by (cases "path_of ps") (simp_all add: ustr_def)
      with tw have "?K = length v"
        by (simp only: append_Nil2)
      with k show ?thesis by linarith
    next
      case False
      with after have a: "atoms ps = map atom_of (path_of ps)"
        by (simp add: no_segment)
      have "?K \<le> length v + length (path_of ps)"
        using length_takeWhile_le [of "\<lambda>c. c \<noteq> 0x2F" ?s] by simp
      with k have "length (drop k ?s) < length (path_of ps)"
        by simp arith
      then show ?thesis
        using re_match_too_short [of "drop k ?s" "path_of ps" False] by (simp only: a) simp
    qed
  qed
  have "filter ?P (rev [1 ..< Suc ?K]) = length v # filter ?P (rev [1 ..< length v])"
    by (rule filter_rev_upt_first [OF n1 K Pn later])
  then show ?thesis
    using rest by simp
qed

lemma re_match_pieces:
  "pieces_ok tab ps \<Longrightarrow> re_match_from b (atoms ps @ [Eol]) (path_of ps) = Some (bindings ps)"
proof (induction ps arbitrary: b)
  case Nil
  then show ?case by simp
next
  case (Cons p ps)
  show ?case
  proof (cases p)
    case (Text t)
    with Cons.prems have t: "list_all plain t" and ok: "pieces_ok tab ps"
      by simp_all
    show ?thesis
      using Text Cons.IH [OF ok] re_match_plain_prefix [OF t, of b "atoms ps @ [Eol]" "path_of ps"]
      by simp
  next
    case (Param n v)
    with Cons.prems have v: "segment_value v" and ok: "pieces_ok tab ps"
      and after: "take 1 (pattern_of ps) = ustr ''/'' \<or> bindings ps = []"
      by simp_all
    from after have after': "take 1 (path_of ps) = ustr ''/'' \<or> bindings ps = []"
      using slash_first [of ps] by blast
    show ?thesis
      using Param re_match_group_value [OF v after' Cons.IH [OF ok], of b n] by simp
  qed
qed

text \<open>
  What a group holds after a match, whatever the pattern and the string: one or more
  characters, none of them \<open>/\<close>.
\<close>

lemma group_holds_segment:
  "re_match_from b r s = Some d \<Longrightarrow> \<forall>(n, v) \<in> set d. segment_value v"
proof (induction b r s arbitrary: d rule: re_match_from.induct)
  case (6 bos n r s)
  let ?P = "\<lambda>k. re_match_from False r (drop k s) \<noteq> None"
  let ?K = "length (takeWhile (\<lambda>c. c \<noteq> 0x2F) s)"
  from "6.prems" obtain k ks d' where f: "filter ?P (rev [1 ..< Suc ?K]) = k # ks"
    and r: "re_match_from False r (drop k s) = Some d'" and d: "d = (n, take k s) # d'"
    by (auto split: list.splits)
  have "k \<in> set (filter ?P (rev [1 ..< Suc ?K]))"
    using f by simp
  then have k: "1 \<le> k" "k \<le> ?K"
    by auto
  have "take k (takeWhile (\<lambda>c. c \<noteq> 0x2F) s @ dropWhile (\<lambda>c. c \<noteq> 0x2F) s) =
      take k (takeWhile (\<lambda>c. c \<noteq> 0x2F) s)"
    using k(2) by (simp only: take_append) simp
  then have "take k s = take k (takeWhile (\<lambda>c. c \<noteq> 0x2F) s)"
    by (simp only: takeWhile_dropWhile_id)
  then have "0x2F \<notin> set (take k s)"
    by (metis in_set_takeD set_takeWhileD)
  moreover have "take k s \<noteq> []"
    using k length_takeWhile_le [of "\<lambda>c. c \<noteq> 0x2F" s] by (cases s) auto
  ultimately have "segment_value (take k s)"
    by (simp add: segment_value_def)
  moreover have "\<forall>(n, v) \<in> set d'. segment_value v"
    using "6.IH" r f k by auto
  ultimately show ?case
    using d by simp
qed (auto split: list.splits if_splits)

text \<open>
  The loop of lines 74 to 79, were it given a request with the method of the route and
  that path, calls the handler of the route with that mapping.
\<close>

lemma dispatch_delivers:
  assumes "pieces_ok tab ps" and "method' req = m" and "ustr (path req) = path_of ps"
  shows "dispatch ((m, Bol # atoms ps @ [Eol], h) # rs) req w = h req w (bindings ps)"
  using assms re_match_pieces [OF assms(1), of True] by (simp add: re_match_def)

text \<open>
  Claim C4, amended. Take a pattern made of literal text, which holds no metacharacter of
  regular expressions but the dot, and of bracketed segments. The name of a segment is one
  or more word characters that make an identifier, no two segments share a name, and after
  a segment the pattern ends, or goes on with \<open>/\<close>, or holds no further segment. \<open>on\<close>
  registers the route with the compiled pattern in which every segment has become a named
  group, between the anchors \<open>^\<close> and \<open>$\<close>. Put a value that is not empty and holds no \<open>/\<close>
  in the place of every segment: the compiled pattern matches this path and its group
  dictionary binds every name to the value of its segment, and to nothing else. In every
  match of the compiled pattern a group holds one or more characters other than \<open>/\<close>.
\<close>

theorem on_segments_capture_values:
  assumes "well_formed tab ps"
  shows "on tab srv (pattern_of ps) m h =
           Some (Inr (srv\<lparr>routes := routes srv @ [(m, Bol # atoms ps @ [Eol], h)]\<rparr>)) \<and>
         re_match (Bol # atoms ps @ [Eol]) (path_of ps) = Some (bindings ps) \<and>
         (\<forall>s d. re_match (Bol # atoms ps @ [Eol]) s = Some d \<longrightarrow>
            (\<forall>(n, v) \<in> set d. segment_value v))"
proof -
  have ok: "pieces_ok tab ps"
    using assms by (simp add: well_formed_def)
  have "on tab srv (pattern_of ps) m h =
      Some (Inr (srv\<lparr>routes := routes srv @ [(m, Bol # atoms ps @ [Eol], h)]\<rparr>))"
    using compile_path_pieces [OF assms] by (rule on_appends)
  moreover have "re_match (Bol # atoms ps @ [Eol]) (path_of ps) = Some (bindings ps)"
    using re_match_pieces [OF ok, of True] by (simp add: re_match_def)
  moreover have "\<forall>s d. re_match (Bol # atoms ps @ [Eol]) s = Some d \<longrightarrow>
      (\<forall>(n, v) \<in> set d. segment_value v)"
    unfolding re_match_def using group_holds_segment by blast
  ultimately show ?thesis
    by blast
qed

text \<open>
  The pattern \<open>/u/[uid]/p/[pid]\<close> with the values \<open>7\<close> and \<open>a-b\<close>, which make the path
  \<open>/u/7/p/a-b\<close>.
\<close>

theorem on_segments_capture_values_witness:
  "well_formed latin1 [Text (ustr ''/u/''), Param (ustr ''uid'') (ustr ''7''),
                       Text (ustr ''/p/''), Param (ustr ''pid'') (ustr ''a-b'')] \<and>
   on latin1 \<lparr>port = 8080, routes = []\<rparr> (ustr ''/u/[uid]/p/[pid]'') ''GET''
      (\<lambda>req w ps. (w, None)) =
     Some (Inr \<lparr>port = 8080, routes =
       [(''GET'',
         Bol # map Lit (ustr ''/u/'') @ Group (ustr ''uid'') # map Lit (ustr ''/p/'') @
           [Group (ustr ''pid''), Eol],
         \<lambda>req w ps. (w, None))]\<rparr>) \<and>
   re_match (Bol # map Lit (ustr ''/u/'') @ Group (ustr ''uid'') # map Lit (ustr ''/p/'') @
               [Group (ustr ''pid''), Eol])
     (ustr ''/u/7/p/a-b'') =
     Some [(ustr ''uid'', ustr ''7''), (ustr ''pid'', ustr ''a-b'')]"
proof -
  have wf: "well_formed latin1 [Text (ustr ''/u/''), Param (ustr ''uid'') (ustr ''7''),
      Text (ustr ''/p/''), Param (ustr ''pid'') (ustr ''a-b'')]"
    by code_simp
  show ?thesis
    using wf on_segments_capture_values [OF wf, of "\<lparr>port = 8080, routes = []\<rparr>" "''GET''"
        "\<lambda>req w ps. (w, None)"]
    by (simp add: atom_of_def ustr_def)
qed

text \<open>
  Claim C4 as it is stated fails on patterns with a bracketed segment. The segment \<open>[1]\<close>
  is rewritten to a group named \<open>1\<close>, and the two segments of \<open>/[a]/[a]\<close> to two groups
  named \<open>a\<close>: \<open>re.compile\<close> refuses both and no route is registered. The text around a
  segment is not escaped: in \<open>/a$b/[id]\<close> the \<open>$\<close> is an anchor, and the path \<open>/a$b/42\<close>
  does not match. A group is greedy: the path \<open>/1-2-3\<close> is the pattern \<open>/[a]-[b]\<close> with the
  values \<open>1\<close> and \<open>2-3\<close>, and the match binds \<open>a\<close> to \<open>1-2\<close> and \<open>b\<close> to \<open>3\<close>. The match
  need not cover the whole path: the path \<open>/items/42/x\<close> followed by a newline is matched
  by the pattern of \<open>/items/[id]/x\<close>, the newline left over.
\<close>

theorem on_segments_counterexample:
  "compile_path latin1 (ustr ''/items/[1]'') = Some (Inl RegexError) \<and>
   compile_path latin1 (ustr ''/[a]/[a]'') = Some (Inl RegexError) \<and>
   compile_path latin1 (ustr ''/a$b/[id]'') =
     Some (Inr (Bol # map Lit (ustr ''/a'') @ Eol # map Lit (ustr ''b/'') @
                [Group (ustr ''id''), Eol])) \<and>
   re_match (Bol # map Lit (ustr ''/a'') @ Eol # map Lit (ustr ''b/'') @
             [Group (ustr ''id''), Eol])
     (ustr ''/a$b/42'') = None \<and>
   compile_path latin1 (ustr ''/[a]-[b]'') =
     Some (Inr [Bol, Lit 0x2F, Group (ustr ''a''), Lit 0x2D, Group (ustr ''b''), Eol]) \<and>
   path_of [Text (ustr ''/''), Param (ustr ''a'') (ustr ''1''), Text (ustr ''-''),
            Param (ustr ''b'') (ustr ''2-3'')] = ustr ''/1-2-3'' \<and>
   re_match [Bol, Lit 0x2F, Group (ustr ''a''), Lit 0x2D, Group (ustr ''b''), Eol]
     (ustr ''/1-2-3'') = Some [(ustr ''a'', ustr ''1-2''), (ustr ''b'', ustr ''3'')] \<and>
   compile_path latin1 (ustr ''/items/[id]/x'') =
     Some (Inr (Bol # map Lit (ustr ''/items/'') @ Group (ustr ''id'') # map Lit (ustr ''/x'') @
                [Eol])) \<and>
   re_match (Bol # map Lit (ustr ''/items/'') @ Group (ustr ''id'') # map Lit (ustr ''/x'') @
             [Eol])
     (ustr ''/items/42/x'' @ [0x0A]) = Some [(ustr ''id'', ustr ''42'')]"
  by code_simp

section \<open>Properties of the file system\<close>

text \<open>
  Writing a file and removing a file leave the directories as they are, so every path
  leads where it led before; a file that has been written is read back. The path of a
  name joined to a directory leads to that name in the location of the directory.
\<close>

lemma walk_same_dirs:
  "\<forall>m. is_dir fs' m = is_dir fs m \<Longrightarrow> (walk fs' cur cs = Inr x) = (walk fs cur cs = Inr x)"
  by (induction cs arbitrary: cur) auto

lemma resolve_same_dirs:
  "\<forall>m. is_dir fs' m = is_dir fs m \<Longrightarrow> (resolve fs' p = Inr x) = (resolve fs p = Inr x)"
  by (simp add: resolve_def walk_same_dirs)

lemma is_dir_put_file: "\<not> is_dir fs l \<Longrightarrow> is_dir (fs(l \<mapsto> File c)) m = is_dir fs m"
  by (auto simp: is_dir_def)

lemma is_dir_drop_file: "fs l = Some (File c) \<Longrightarrow> is_dir (fs(l := None)) m = is_dir fs m"
  by (auto simp: is_dir_def)

lemma open_write_result:
  "open_write fs p c = Inr fs' \<Longrightarrow>
   \<exists>l. resolve fs p = Inr l \<and> \<not> is_dir fs l \<and> fs' = fs(l \<mapsto> File c)"
  by (auto simp: open_write_def split: sum.splits if_splits)

lemma open_write_read: "open_write fs p c = Inr fs' \<Longrightarrow> open_read fs' p = Inr c"
proof -
  assume "open_write fs p c = Inr fs'"
  from open_write_result [OF this]
  obtain l where l: "resolve fs p = Inr l" "\<not> is_dir fs l" "fs' = fs(l \<mapsto> File c)"
    by auto
  have "\<forall>m. is_dir fs' m = is_dir fs m"
    using l by (simp add: is_dir_put_file)
  then have "resolve fs' p = Inr l"
    using l resolve_same_dirs [of fs' fs p l] by simp
  moreover have "\<not> is_dir fs' l"
    using l by (simp add: is_dir_def)
  ultimately show ?thesis
    using l by (simp add: open_read_def)
qed

lemma path_join_nonempty: "b \<noteq> [] \<Longrightarrow> path_join a b \<noteq> []"
  by (auto simp: path_join_def)

lemma not_dir_nonempty: "\<not> is_dir fs l \<Longrightarrow> l \<noteq> []"
  by (auto simp: is_dir_def)

lemma path_exists_file: "resolve fs p = Inr l \<Longrightarrow> fs l = Some n \<Longrightarrow> path_exists fs p"
  by (simp add: path_exists_def)

lemma open_read_file:
  "resolve fs p = Inr l \<Longrightarrow> l \<noteq> [] \<Longrightarrow> fs l = Some (File c) \<Longrightarrow> open_read fs p = Inr c"
  by (simp add: open_read_def is_dir_def)

lemma remove_file:
  "resolve fs p = Inr l \<Longrightarrow> l \<noteq> [] \<Longrightarrow> fs l = Some (File c) \<Longrightarrow> remove fs p = Inr (fs(l := None))"
  by (simp add: remove_def is_dir_def)

lemma open_write_file:
  "resolve fs p = Inr l \<Longrightarrow> \<not> is_dir fs l \<Longrightarrow> open_write fs p c = Inr (fs(l \<mapsto> File c))"
  by (simp add: open_write_def)

lemma split_acc_slash_Nil: "split_acc ''/'' cur [] = [cur]"
  by (subst split_acc.simps) simp

lemma split_acc_slash_Cons:
  "split_acc ''/'' cur (x # xs) =
     (if x = CHR ''/'' then cur # split_acc ''/'' [] xs else split_acc ''/'' (cur @ [x]) xs)"
  by (subst split_acc.simps) simp

lemma split_acc_slash_free: "CHR ''/'' \<notin> set c \<Longrightarrow> split_acc ''/'' cur c = [cur @ c]"
  by (induction c arbitrary: cur) (auto simp: split_acc_slash_Nil split_acc_slash_Cons)

lemma split_acc_slash_last:
  "CHR ''/'' \<notin> set c \<Longrightarrow> split_acc ''/'' cur (a @ CHR ''/'' # c) = split_acc ''/'' cur a @ [c]"
  by (induction a arbitrary: cur)
     (simp_all add: split_acc_slash_Nil split_acc_slash_Cons split_acc_slash_free)

lemma split_slash_free: "CHR ''/'' \<notin> set c \<Longrightarrow> split ''/'' c = [c]"
  by (simp add: split_def split_acc_slash_free)

lemma split_slash_last:
  "CHR ''/'' \<notin> set c \<Longrightarrow> split ''/'' (a @ CHR ''/'' # c) = split ''/'' a @ [c]"
  by (simp add: split_def split_acc_slash_last)

lemma walk_append:
  "walk fs cur (xs @ ys) = (case walk fs cur xs of Inl e \<Rightarrow> Inl e | Inr m \<Rightarrow> walk fs m ys)"
  by (induction xs arbitrary: cur) (auto simp: is_dir_def)

lemma walk_name:
  "name_ok c \<Longrightarrow> walk fs m [c] = Inr l \<Longrightarrow> is_dir fs m \<and> l = m @ [c]"
  by (auto simp: name_ok_def split: if_splits)

lemma walk_blank: "is_dir fs m \<Longrightarrow> walk fs m [[]] = Inr m"
  by simp

lemma walk_snoc_name:
  assumes "name_ok c" and "walk fs cur (sp @ [c]) = Inr l"
  shows "\<exists>D. walk fs cur sp = Inr D \<and> is_dir fs D \<and> l = D @ [c]"
proof (cases "walk fs cur sp")
  case (Inl e)
  with assms(2) show ?thesis by (simp add: walk_append)
next
  case (Inr m)
  with assms(2) have "walk fs m [c] = Inr l" by (simp add: walk_append)
  from walk_name [OF assms(1) this] Inr show ?thesis by simp
qed

lemma walk_join_name:
  assumes ok: "name_ok c" and w: "walk fs [] (split ''/'' (path_join T c)) = Inr l"
  shows "\<exists>D. walk fs [] (split ''/'' T) = Inr D \<and> l = D @ [c]"
proof -
  have nf: "CHR ''/'' \<notin> set c" and "take 1 c \<noteq> ''/''"
    using ok by (auto simp: name_ok_def dest: in_set_takeD) (cases c, auto)
  consider "T = []" | "T \<noteq> []" "last T = CHR ''/''" | "T \<noteq> []" "last T \<noteq> CHR ''/''"
    by blast
  then show ?thesis
  proof cases
    case 1
    then have "path_join T c = c"
      using \<open>take 1 c \<noteq> ''/''\<close> by (simp add: path_join_def)
    then have "walk fs [] [c] = Inr l"
      using w nf by (simp add: split_slash_free)
    from walk_name [OF ok this] 1 show ?thesis
      by (simp add: split_def split_acc_slash_Nil is_dir_def)
  next
    case 2
    then have T: "T = butlast T @ ''/'' @ []"
      by (metis append_Nil2 append_butlast_last_id append_Cons append_Nil)
    have "path_join T c = butlast T @ ''/'' @ c"
      using 2 \<open>take 1 c \<noteq> ''/''\<close> by (simp add: path_join_def) (metis T append_Nil2 append_assoc)
    then have "walk fs [] (split ''/'' (butlast T) @ [c]) = Inr l"
      using w nf by (simp add: split_slash_last)
    from walk_snoc_name [OF ok this] obtain D where
      D: "walk fs [] (split ''/'' (butlast T)) = Inr D" "is_dir fs D" "l = D @ [c]"
      by blast
    have "split ''/'' T = split ''/'' (butlast T) @ [[]]"
      using split_slash_last [of "[]" "butlast T"] T by simp
    then have "walk fs [] (split ''/'' T) = Inr D"
      using D by (simp add: walk_append)
    with D show ?thesis by simp
  next
    case 3
    then have "path_join T c = T @ ''/'' @ c"
      using \<open>take 1 c \<noteq> ''/''\<close> by (simp add: path_join_def)
    then have "walk fs [] (split ''/'' T @ [c]) = Inr l"
      using w nf by (simp add: split_slash_last)
    from walk_snoc_name [OF ok this] show ?thesis by blast
  qed
qed

lemma resolve_join_name:
  assumes "name_ok c" and "resolve fs (path_join T c) = Inr l"
  shows "\<exists>D. walk fs [] (split ''/'' T) = Inr D \<and> l = D @ [c]"
  using assms walk_join_name [of c fs T l] by (simp add: resolve_def split: if_splits)

section \<open>Properties of the store\<close>

text \<open>
  For a key that holds no \<open>/\<close> the value file lies in the directory \<open>keys\<close> of the table and
  \<open>index.json\<close> beside that directory, so the two paths lead to different files.
\<close>

lemma value_file_nonempty: "value_file db t k \<noteq> []"
  by (simp add: value_file_def path_join_nonempty)

lemma key_file_name_ok: "CHR ''/'' \<notin> set k \<Longrightarrow> name_ok (k @ ''.json'')"
  by (auto simp: name_ok_def append_eq_Cons_conv)

lemma plain_key_paths_differ:
  assumes "CHR ''/'' \<notin> set k"
    and "resolve fs (value_file db t k) = Inr lf"
    and "resolve fs (index_file db t) = Inr li"
  shows "lf \<noteq> li"
proof -
  let ?T = "path_join (base_path db) t"
  have keys: "name_ok ''keys''" and ix: "name_ok ''index.json''"
    by (simp_all add: name_ok_def)
  from resolve_join_name [OF key_file_name_ok [OF assms(1)]] assms(2)
  obtain Dk where Dk: "walk fs [] (split ''/'' (path_join ?T ''keys'')) = Inr Dk"
      "lf = Dk @ [k @ ''.json'']"
    unfolding value_file_def by blast
  from walk_join_name [OF keys Dk(1)] obtain D where
    D: "walk fs [] (split ''/'' ?T) = Inr D" "Dk = D @ [''keys'']"
    by blast
  from resolve_join_name [OF ix] assms(3) obtain D' where
    D': "walk fs [] (split ''/'' ?T) = Inr D'" "li = D' @ [''index.json'']"
    unfolding index_file_def by blast
  from D D' Dk show ?thesis by simp
qed

lemma save_index_on_disk:
  "save_index db fs t = Inr fs' \<Longrightarrow> index_on_disk db fs' t"
  by (auto simp: save_index_def index_on_disk_def open_write_read split: option.splits)

lemma db_set_index_on_disk:
  "db_set db fs t k v = Inr (db', fs') \<Longrightarrow> index_on_disk db' fs' t"
  by (auto simp: db_set_def Let_def save_index_on_disk split: sum.splits)

lemma db_delete_index_on_disk:
  "db_delete db fs t k = Inr (db', fs') \<Longrightarrow> entry_file_exists db fs t k \<Longrightarrow> index_on_disk db' fs' t"
  by (auto simp: db_delete_def entry_file_exists_def Let_def save_index_on_disk
      split: sum.splits option.splits if_splits)

lemma then_do_Inr: "then_do x f = Inr y \<Longrightarrow> \<exists>v. x = Inr v \<and> f v = Inr y"
  by (cases x) (simp_all add: then_do_def)

lemma db_set_steps:
  "db_set db fs t k v =
     then_do (makedirs fs (path_join (path_join (base_path db) t) ''keys''))
       (\<lambda>fsa. then_do (open_write fsa (value_file db t k) (JsonText v))
         (\<lambda>fsb. then_do
            (save_index
               (db\<lparr>tables := AList.update t
                  (AList.update k (value_file db t k)
                     (case map_of (tables db) t of None \<Rightarrow> [] | Some i \<Rightarrow> i)) (tables db)\<rparr>)
               fsb t)
            (\<lambda>fsc. Inr
               (db\<lparr>tables := AList.update t
                  (AList.update k (value_file db t k)
                     (case map_of (tables db) t of None \<Rightarrow> [] | Some i \<Rightarrow> i)) (tables db)\<rparr>,
                fsc))))"
  unfolding db_set_def then_do_def value_file_def Let_def ..

text \<open>What a successful \<open>set\<close> leaves behind.\<close>

lemma db_set_state:
  assumes "db_set db fs t k v = Inr (db1, fs1)"
  shows "\<exists>lf li idx.
    resolve fs1 (value_file db t k) = Inr lf \<and>
    resolve fs1 (index_file db t) = Inr li \<and>
    lf \<noteq> [] \<and> li \<noteq> [] \<and>
    fs1 li = Some (File (JsonText (index_json idx))) \<and>
    (lf \<noteq> li \<longrightarrow> fs1 lf = Some (File (JsonText v))) \<and>
    tables db1 = AList.update t idx (tables db) \<and>
    map_of idx k = Some (value_file db t k) \<and>
    base_path db1 = base_path db"
proof -
  let ?vf = "value_file db t k"
  let ?idx = "AList.update k ?vf (case map_of (tables db) t of None \<Rightarrow> [] | Some i \<Rightarrow> i)"
  let ?db1 = "db\<lparr>tables := AList.update t ?idx (tables db)\<rparr>"
  from assms obtain fsa where
    "then_do (open_write fsa ?vf (JsonText v))
       (\<lambda>fsb. then_do (save_index ?db1 fsb t) (\<lambda>fsc. Inr (?db1, fsc))) = Inr (db1, fs1)"
    unfolding db_set_steps by (blast dest: then_do_Inr)
  then obtain fsb where
    a: "open_write fsa ?vf (JsonText v) = Inr fsb" and
    "then_do (save_index ?db1 fsb t) (\<lambda>fsc. Inr (?db1, fsc)) = Inr (db1, fs1)"
    by (blast dest: then_do_Inr)
  then obtain fsc where "save_index ?db1 fsb t = Inr fsc" and "Inr (?db1, fsc) = Inr (db1, fs1)"
    by (blast dest: then_do_Inr)
  then have b: "save_index ?db1 fsb t = Inr fs1" and d: "db1 = ?db1"
    by simp_all
  from open_write_result [OF a] obtain lf where
    lf: "resolve fsa ?vf = Inr lf" "\<not> is_dir fsa lf" "fsb = fsa(lf \<mapsto> File (JsonText v))"
    by auto
  have ix: "index_file ?db1 t = index_file db t"
    by (simp add: index_file_def)
  from b have "open_write fsb (index_file db t) (JsonText (index_json ?idx)) = Inr fs1"
    by (simp add: save_index_def update_conv' ix)
  from open_write_result [OF this] obtain li where
    li: "resolve fsb (index_file db t) = Inr li" "\<not> is_dir fsb li"
        "fs1 = fsb(li \<mapsto> File (JsonText (index_json ?idx)))"
    by auto
  have dirs_b: "\<forall>m. is_dir fsb m = is_dir fsa m"
    using lf by (simp add: is_dir_put_file)
  have dirs_1: "\<forall>m. is_dir fs1 m = is_dir fsb m"
    using li by (simp add: is_dir_put_file)
  have "resolve fs1 ?vf = Inr lf"
    using lf(1) resolve_same_dirs [OF dirs_1, of ?vf lf] resolve_same_dirs [OF dirs_b, of ?vf lf]
    by simp
  moreover have "resolve fs1 (index_file db t) = Inr li"
    using li(1) resolve_same_dirs [OF dirs_1, of "index_file db t" li] by simp
  moreover have "lf \<noteq> []" "li \<noteq> []"
    using lf(2) li(2) by (auto dest: not_dir_nonempty)
  moreover have "fs1 li = Some (File (JsonText (index_json ?idx)))"
    using li(3) by simp
  moreover have "lf \<noteq> li \<longrightarrow> fs1 lf = Some (File (JsonText v))"
    using li(3) lf(3) by simp
  moreover have "tables db1 = AList.update t ?idx (tables db)" "base_path db1 = base_path db"
    using d by simp_all
  moreover have "map_of ?idx k = Some ?vf"
    by (simp add: update_conv')
  ultimately show ?thesis
    by blast
qed

lemma succeedsE: "succeeds x \<Longrightarrow> \<exists>v. x = Inr v"
  by (cases x) (simp_all add: succeeds_def)

lemma db_delete_absent:
  assumes "\<not> indexed db t k"
  shows "db_delete db fs t k = Inr (db, fs)"
proof (cases "map_of (tables db) t")
  case None
  then show ?thesis by (simp add: db_delete_def)
next
  case (Some idx)
  with assms have absent: "map_of idx k = None"
    by (simp add: indexed_def)
  then have "AList.delete k idx = idx"
    by (simp add: map_of_eq_None_iff)
  then have "AList.update t (AList.delete k idx) (tables db) = tables db"
    using Some by (simp add: update_triv)
  then show ?thesis
    using Some absent by (simp add: db_delete_def)
qed

lemma get_after_set:
  assumes "db_set db fs t k v = Inr (db1, fs1)"
    and "resolve fs1 (value_file db t k) \<noteq> resolve fs1 (index_file db t)"
  shows "db_get db1 fs1 t k = Inr v"
proof -
  from db_set_state [OF assms(1)] obtain lf li idx where
    s: "resolve fs1 (value_file db t k) = Inr lf"
       "resolve fs1 (index_file db t) = Inr li"
       "lf \<noteq> []" "li \<noteq> []"
       "fs1 li = Some (File (JsonText (index_json idx)))"
       "lf \<noteq> li \<longrightarrow> fs1 lf = Some (File (JsonText v))"
       "tables db1 = AList.update t idx (tables db)"
       "map_of idx k = Some (value_file db t k)"
       "base_path db1 = base_path db"
    by blast
  have stored: "fs1 lf = Some (File (JsonText v))"
    using s assms(2) by auto
  have "path_exists fs1 (value_file db t k)"
    using s(1) stored by (rule path_exists_file)
  moreover have "open_read fs1 (value_file db t k) = Inr (JsonText v)"
    using s(1,3) stored by (rule open_read_file)
  ultimately show ?thesis
    using s(7,8) by (simp add: db_get_def update_conv' value_file_nonempty)
qed

lemma delete_after_set:
  assumes "db_set db fs t k v = Inr (db1, fs1)"
  shows "\<exists>db2 fs2. db_delete db1 fs1 t k = Inr (db2, fs2) \<and>
           db_get db2 fs2 t k = Inr JNull \<and>
           (resolve fs1 (value_file db t k) \<noteq> resolve fs1 (index_file db t) \<longrightarrow>
              \<not> path_exists fs2 (value_file db t k))"
proof -
  let ?vf = "value_file db t k"
  let ?ix = "index_file db t"
  from db_set_state [OF assms(1)] obtain lf li idx where
    s: "resolve fs1 ?vf = Inr lf"
       "resolve fs1 ?ix = Inr li"
       "lf \<noteq> []" "li \<noteq> []"
       "fs1 li = Some (File (JsonText (index_json idx)))"
       "lf \<noteq> li \<longrightarrow> fs1 lf = Some (File (JsonText v))"
       "tables db1 = AList.update t idx (tables db)"
       "map_of idx k = Some ?vf"
       "base_path db1 = base_path db"
    by blast
  let ?db2 = "db1\<lparr>tables := AList.update t (AList.delete k idx) (tables db1)\<rparr>"
  let ?fsr = "fs1(lf := None)"
  let ?doc = "JsonText (index_json (AList.delete k idx))"
  let ?fs2 = "?fsr(li \<mapsto> File ?doc)"
  obtain c where stored: "fs1 lf = Some (File c)"
    using s(5,6) by (cases "lf = li") auto
  have tbl: "map_of (tables db1) t = Some idx"
    using s(7) by (simp add: update_conv')
  have ex: "path_exists fs1 ?vf"
    using s(1) stored by (rule path_exists_file)
  have rm: "remove fs1 ?vf = Inr ?fsr"
    using s(1,3) stored by (rule remove_file)
  have dirs_r: "\<forall>m. is_dir ?fsr m = is_dir fs1 m"
    using stored by (simp add: is_dir_drop_file)
  have res_r: "resolve ?fsr ?ix = Inr li"
    using s(2) resolve_same_dirs [OF dirs_r, of ?ix li] by simp
  have nd: "\<not> is_dir ?fsr li"
    using s(4,5) by (simp add: is_dir_def)
  have ix2: "index_file ?db2 t = ?ix"
    using s(9) by (simp add: index_file_def)
  have "open_write ?fsr ?ix ?doc = Inr ?fs2"
    using res_r nd by (rule open_write_file)
  then have sv: "save_index ?db2 ?fsr t = Inr ?fs2"
    by (simp add: save_index_def update_conv' ix2)
  have del: "db_delete db1 fs1 t k = Inr (?db2, ?fs2)"
    using tbl s(8) ex rm sv by (simp add: db_delete_def value_file_nonempty Let_def)
  have get: "db_get ?db2 ?fs2 t k = Inr JNull"
    by (simp add: db_get_def update_conv' delete_conv')
  have dirs_2: "\<forall>m. is_dir ?fs2 m = is_dir ?fsr m"
    using nd by (simp add: is_dir_put_file)
  have "resolve ?fs2 ?vf = Inr lf"
    using s(1) resolve_same_dirs [OF dirs_2, of ?vf lf] resolve_same_dirs [OF dirs_r, of ?vf lf]
    by simp
  then have gone: "lf \<noteq> li \<longrightarrow> \<not> path_exists ?fs2 ?vf"
    using s(3) by (simp add: path_exists_def)
  have "resolve fs1 ?vf \<noteq> resolve fs1 ?ix \<longrightarrow> lf \<noteq> li"
    using s(1,2) by simp
  with del get gone show ?thesis
    by blast
qed

lemma paths_differ_after_set:
  assumes "db_set db fs t k v = Inr (db1, fs1)"
    and "CHR ''/'' \<notin> set k \<or>
         resolve fs1 (value_file db t k) \<noteq> resolve fs1 (index_file db t)"
  shows "resolve fs1 (value_file db t k) \<noteq> resolve fs1 (index_file db t)"
proof -
  from db_set_state [OF assms(1)] obtain lf li where
    r: "resolve fs1 (value_file db t k) = Inr lf" "resolve fs1 (index_file db t) = Inr li"
    by blast
  show ?thesis
  proof (cases "CHR ''/'' \<in> set k")
    case True
    with assms(2) show ?thesis by simp
  next
    case False
    from plain_key_paths_differ [OF False r] r show ?thesis by simp
  qed
qed

lemma new_store_set: "succeeds (db_set new_store Map.empty ''t'' ''k'' (JInt 5))"
  by code_simp

lemma new_store_set_entry:
  "entry_file_exists (fst (projr (db_set new_store Map.empty ''t'' ''k'' (JInt 5))))
     (snd (projr (db_set new_store Map.empty ''t'' ''k'' (JInt 5)))) ''t'' ''k''"
  by code_simp

text \<open>
  Claim C6. For a key with no entry in the index of the table in memory, and for a table
  the store does not know, \<open>delete\<close> returns without an exception and leaves the state of
  the store and every file as they were: the index in memory is unchanged and
  \<open>index.json\<close> is not written.
\<close>

theorem delete_absent_is_noop:
  assumes "\<not> indexed db t k"
  shows "db_delete db fs t k = Inr (db, fs)"
  using assms by (rule db_delete_absent)

theorem delete_absent_is_noop_witness:
  "db_delete \<lparr>base_path = ''./db/'', tables = [(''t'', [(''a'', ''./db/t/keys/a.json'')])]\<rparr>
     Map.empty ''t'' ''b'' =
   Inr (\<lparr>base_path = ''./db/'', tables = [(''t'', [(''a'', ''./db/t/keys/a.json'')])]\<rparr>, Map.empty)"
proof -
  have "\<not> indexed \<lparr>base_path = ''./db/'', tables = [(''t'', [(''a'', ''./db/t/keys/a.json'')])]\<rparr>
      ''t'' ''b''"
    by (simp add: indexed_def)
  then show ?thesis
    by (rule delete_absent_is_noop)
qed

text \<open>
  Claim C1, amended. After a \<open>set\<close> that returns, and after a \<open>delete\<close> that returns of a
  key whose entry names a file that exists, \<open>index.json\<close> of the table holds exactly the
  index of the table in memory. A \<open>delete\<close> of a key with no entry writes nothing and
  changes nothing, so it keeps the two in agreement where they were.
\<close>

theorem index_persisted:
  assumes "db_set db fs t k v = Inr (db', fs') \<or>
           db_delete db fs t k = Inr (db', fs') \<and>
             (entry_file_exists db fs t k \<or> \<not> indexed db t k \<and> index_on_disk db fs t)"
  shows "index_on_disk db' fs' t"
  using assms db_set_index_on_disk db_delete_index_on_disk db_delete_absent [of db t k fs]
  by auto

theorem index_persisted_witness:
  "(case db_set new_store Map.empty ''t'' ''k'' (JInt 5) of
      Inl e \<Rightarrow> False
    | Inr (db1, fs1) \<Rightarrow>
        index_on_disk db1 fs1 ''t'' \<and>
        (case db_delete db1 fs1 ''t'' ''k'' of
           Inl e \<Rightarrow> False
         | Inr (db2, fs2) \<Rightarrow> index_on_disk db2 fs2 ''t''))"
proof -
  obtain db1 fs1 where X: "db_set new_store Map.empty ''t'' ''k'' (JInt 5) = Inr (db1, fs1)"
    using succeedsE [OF new_store_set] by auto
  have one: "index_on_disk db1 fs1 ''t''"
    using index_persisted [of new_store Map.empty "''t''" "''k''" "JInt 5" db1 fs1] X by simp
  from delete_after_set [OF X] obtain db2 fs2 where
    Y: "db_delete db1 fs1 ''t'' ''k'' = Inr (db2, fs2)"
    by blast
  have "entry_file_exists db1 fs1 ''t'' ''k''"
    using new_store_set_entry by (simp add: X)
  then have two: "index_on_disk db2 fs2 ''t''"
    using index_persisted [of db1 fs1 "''t''" "''k''" "JInt 5" db2 fs2] Y by simp
  show ?thesis
    using one two by (simp add: X Y)
qed

text \<open>
  Claim C1 as it is stated fails on a dangling entry. The index in memory and
  \<open>index.json\<close> agree and list the key \<open>k\<close>, and the file of its value is missing. \<open>delete\<close>
  returns; it has taken the key out of the index in memory and has not written
  \<open>index.json\<close>, which still lists the key.
\<close>

theorem index_persisted_counterexample:
  "index_on_disk dangling_store dangling_files ''t'' \<and>
   indexed dangling_store ''t'' ''k'' \<and>
   (case db_delete dangling_store dangling_files ''t'' ''k'' of
      Inl e \<Rightarrow> False
    | Inr (db', fs') \<Rightarrow>
        tables db' = [(''t'', [])] \<and>
        open_read fs' (index_file db' ''t'') =
          Inr (JsonText (JObj [(''k'', JStr ''./db/t/keys/k.json'')])) \<and>
        \<not> index_on_disk db' fs' ''t'')"
  by code_simp

text \<open>
  A dangling entry needs no other hand on the directory: four calls on a new store reach
  one and go on to the disagreement. The keys \<open>k\<close> and \<open>./k\<close> share the file of their
  value; the \<open>delete\<close> of the first removes it, and the \<open>delete\<close> of the second finds no file.
\<close>

lemma dangling_entry_reachable:
  "(case then_do (db_set new_store Map.empty ''t'' ''k'' (JInt 1))
           (\<lambda>(db1, fs1). then_do (db_set db1 fs1 ''t'' ''./k'' (JInt 2))
           (\<lambda>(db2, fs2). then_do (db_delete db2 fs2 ''t'' ''k'')
           (\<lambda>(db3, fs3). db_delete db3 fs3 ''t'' ''./k''))) of
      Inl e \<Rightarrow> False
    | Inr (db', fs') \<Rightarrow>
        tables db' = [(''t'', [])] \<and>
        open_read fs' (index_file db' ''t'') =
          Inr (JsonText (JObj [(''./k'', JStr ''./db/t/keys/./k.json'')])) \<and>
        \<not> index_on_disk db' fs' ''t'')"
  by code_simp

text \<open>
  Claim C2, amended. If \<open>set(table, key, value)\<close> returns and, in the state it leaves, the
  path of the value file and the path of \<open>index.json\<close> do not lead to the same file, as is
  the case for every key that holds no \<open>/\<close>, then \<open>get(table, key)\<close> returns the value,
  for every table and every JSON value.
\<close>

theorem set_then_get:
  assumes "db_set db fs t k v = Inr (db1, fs1)"
    and "CHR ''/'' \<notin> set k \<or>
         resolve fs1 (value_file db t k) \<noteq> resolve fs1 (index_file db t)"
  shows "db_get db1 fs1 t k = Inr v"
  using assms(1) paths_differ_after_set [OF assms] by (rule get_after_set)

theorem set_then_get_witness:
  "set_get new_store Map.empty ''t'' ''k'' (JArr [JInt 5, JObj [(''a'', JStr ''b'')]]) =
     Inr (JArr [JInt 5, JObj [(''a'', JStr ''b'')]])"
proof -
  have "succeeds (db_set new_store Map.empty ''t'' ''k'' (JArr [JInt 5, JObj [(''a'', JStr ''b'')]]))"
    by code_simp
  then obtain db1 fs1 where
    X: "db_set new_store Map.empty ''t'' ''k'' (JArr [JInt 5, JObj [(''a'', JStr ''b'')]]) =
          Inr (db1, fs1)"
    using succeedsE by fastforce
  have "CHR ''/'' \<notin> set ''k'' \<or>
      resolve fs1 (value_file new_store ''t'' ''k'') \<noteq> resolve fs1 (index_file new_store ''t'')"
    by simp
  from set_then_get [OF X this] show ?thesis
    by (simp add: set_get_def then_do_def X)
qed

text \<open>
  Claim C2 as it is stated fails on the key \<open>../index\<close>: the path of its value file,
  \<open>./db/t/keys/../index.json\<close>, leads to \<open>index.json\<close> of the table. \<open>set\<close> writes the value
  there and then the index over it, and \<open>get\<close> returns the index in place of the value 5.
\<close>

theorem set_then_get_counterexample:
  "set_get new_store Map.empty ''t'' ''../index'' (JInt 5) =
     Inr (JObj [(''../index'', JStr ''./db/t/keys/../index.json'')])"
  by code_simp

text \<open>
  Claim C5, amended. After \<open>set(table, key, value)\<close> has returned, \<open>delete(table, key)\<close>
  returns, and \<open>get(table, key)\<close> then returns \<open>None\<close>. If the path of the value file and the
  path of \<open>index.json\<close> do not lead to the same file, as is the case for every key that holds
  no \<open>/\<close>, the value file does not exist after the \<open>delete\<close>.
\<close>

theorem set_delete_then_get:
  assumes "db_set db fs t k v = Inr (db1, fs1)"
  shows "\<exists>db2 fs2. db_delete db1 fs1 t k = Inr (db2, fs2) \<and>
           db_get db2 fs2 t k = Inr JNull \<and>
           (CHR ''/'' \<notin> set k \<or>
            resolve fs1 (value_file db t k) \<noteq> resolve fs1 (index_file db t) \<longrightarrow>
              \<not> path_exists fs2 (value_file db t k))"
  using delete_after_set [OF assms] paths_differ_after_set [OF assms] by blast

theorem set_delete_then_get_witness:
  "(case set_delete new_store Map.empty ''t'' ''k'' (JInt 5) of
      Inl e \<Rightarrow> False
    | Inr (db2, fs2) \<Rightarrow>
        db_get db2 fs2 ''t'' ''k'' = Inr JNull \<and> \<not> path_exists fs2 (value_file new_store ''t'' ''k''))"
proof -
  obtain db1 fs1 where X: "db_set new_store Map.empty ''t'' ''k'' (JInt 5) = Inr (db1, fs1)"
    using succeedsE [OF new_store_set] by auto
  from set_delete_then_get [OF X] show ?thesis
    by (auto simp: set_delete_def then_do_def X)
qed

text \<open>
  Claim C5 as it is stated fails on the key \<open>../index\<close>: \<open>delete\<close> removes the file the
  value path leads to, which is \<open>index.json\<close>, and then saves the index, which makes the
  file again. After the \<open>delete\<close> the path of the value file exists.
\<close>

theorem set_delete_then_get_counterexample:
  "(case set_delete new_store Map.empty ''t'' ''../index'' (JInt 5) of
      Inl e \<Rightarrow> False
    | Inr (db2, fs2) \<Rightarrow> path_exists fs2 (value_file new_store ''t'' ''../index''))"
  by code_simp

end
